theory Spec2Isabelle
  imports Main
begin

section \<open>Data model of \<open>scripts/enumerate-igp-tunnels.py\<close>\<close>

text \<open>
  One entry of the router dictionary \<open>dn42routers\<close>: the host variables the script reads.
  \<open>igp_upstreams\<close> is \<open>None\<close> when the key is absent (\<open>serverdata.get('igp_upstreams', [])\<close>).
\<close>

record serverdata =
  shortname :: string
  igp_upstreams :: "string list option"

text \<open>
  The inventory as the script sees it after loading: the ordered dictionary returned by
  \<open>get_hosts(hosts)\<close> (a list of key/value pairs in iteration order) and the keys of
  \<open>hosts['meshrouters']['hosts']\<close>.
\<close>

record hosts =
  dn42routers :: "(string \<times> serverdata) list"
  meshrouters :: "string list"

text \<open>The dictionary \<open>data\<close> that is read from and written to \<open>OUTFILE\<close>.\<close>

record data =
  next_port :: int
  igp_neighbours :: "string \<rightharpoonup> string set"
  igp_wg_ports :: "string \<rightharpoonup> int"

text \<open>
  Both failures are a \<open>ValueError\<close> in the script; they differ in their message.
  \<open>DuplicateShortname s first server\<close> is line 43, \<open>ConstraintViolation server\<close> line 56.
\<close>

datatype error =
  DuplicateShortname string string string
| ConstraintViolation string

section \<open>Reading the previous settings\<close>

definition START_PORT :: int where
  "START_PORT = 55000"

text \<open>The file \<open>OUTFILE\<close> is \<open>None\<close> when it does not exist.\<close>

definition read_previous_settings :: "data option \<Rightarrow> data" where
  "read_previous_settings outfile =
     (case outfile of
        Some d \<Rightarrow> d
      | None \<Rightarrow> \<lparr>next_port = START_PORT, igp_neighbours = Map.empty, igp_wg_ports = Map.empty\<rparr>)"

section \<open>The neighbour loop (lines 33 to 61)\<close>

text \<open>\<open>d.setdefault(k, set())\<close> as a read: the set stored under \<open>k\<close>, or the empty set.\<close>

definition setdefault_get :: "(string \<rightharpoonup> string set) \<Rightarrow> string \<Rightarrow> string set" where
  "setdefault_get nb k = (case nb k of None \<Rightarrow> {} | Some s \<Rightarrow> s)"

text \<open>Line 61: \<open>data['igp_neighbours'].setdefault(neighbour, set()).add(server)\<close>.\<close>

definition add_reverse :: "string \<Rightarrow> (string \<rightharpoonup> string set) \<Rightarrow> string \<Rightarrow> (string \<rightharpoonup> string set)" where
  "add_reverse server nb neighbour = nb(neighbour \<mapsto> insert server (setdefault_get nb neighbour))"

text \<open>
  Lines 59 to 61. The script iterates over the set \<open>igp_upstreams\<close>; the model iterates over
  the list it was built from (a repeated element adds the same member again).
\<close>

definition add_reverse_all :: "string \<Rightarrow> string list \<Rightarrow> (string \<rightharpoonup> string set) \<Rightarrow> (string \<rightharpoonup> string set)" where
  "add_reverse_all server ups nb = foldl (add_reverse server) nb ups"

definition upstream_list :: "serverdata \<Rightarrow> string list" where
  "upstream_list sd = (case igp_upstreams sd of None \<Rightarrow> [] | Some l \<Rightarrow> l)"

text \<open>
  One iteration of the loop of line 37, on the neighbour table and \<open>seen_shortnames\<close>.
  \<open>neighbours\<close> is the set object stored under \<open>server\<close>, so every in-place update of it is
  an update of the table.
\<close>

definition neighbour_step ::
  "string list \<Rightarrow> (string \<rightharpoonup> string set) \<times> (string \<rightharpoonup> string) \<Rightarrow> string \<times> serverdata
     \<Rightarrow> error + (string \<rightharpoonup> string set) \<times> (string \<rightharpoonup> string)" where
  "neighbour_step mesh st entry =
     (case st of (nb, seen) \<Rightarrow> case entry of (server, sd) \<Rightarrow>
       let neighbours = setdefault_get nb server in
       (case seen (shortname sd) of
          Some first \<Rightarrow> Inl (DuplicateShortname (shortname sd) first server)
        | None \<Rightarrow>
            let seen' = seen(shortname sd \<mapsto> server);
                neighbours' = (if server \<in> set mesh then (neighbours \<union> set mesh) - {server} else neighbours);
                ups = upstream_list sd
            in if \<not> ((server \<in> set mesh) \<noteq> (set ups \<noteq> {}))
               then Inl (ConstraintViolation server)
               else Inr (add_reverse_all server ups (nb(server \<mapsto> neighbours' \<union> set ups)), seen')))"

fun neighbour_loop ::
  "string list \<Rightarrow> (string \<rightharpoonup> string set) \<times> (string \<rightharpoonup> string) \<Rightarrow> (string \<times> serverdata) list
     \<Rightarrow> error + (string \<rightharpoonup> string set) \<times> (string \<rightharpoonup> string)" where
  "neighbour_loop mesh st [] = Inr st"
| "neighbour_loop mesh st (entry # rest) =
     (case neighbour_step mesh st entry of
        Inl e \<Rightarrow> Inl e
      | Inr st' \<Rightarrow> neighbour_loop mesh st' rest)"

section \<open>The port loop (lines 64 to 75)\<close>

text \<open>\<open>itertools.combinations(xs, 2)\<close>, in its order.\<close>

fun combinations2 :: "'a list \<Rightarrow> ('a \<times> 'a) list" where
  "combinations2 [] = []"
| "combinations2 (x # xs) = map (Pair x) xs @ combinations2 xs"

text \<open>\<open>','.join((a, b))\<close>.\<close>

definition join_pair :: "string \<Rightarrow> string \<Rightarrow> string" where
  "join_pair a b = a @ '','' @ b"

definition port_step :: "(string \<rightharpoonup> int) \<times> int \<Rightarrow> string \<times> string \<Rightarrow> (string \<rightharpoonup> int) \<times> int" where
  "port_step st cmb =
     (case st of (ports, np) \<Rightarrow> case cmb of (a, b) \<Rightarrow>
        let cmb_reverse = join_pair b a; cmb' = join_pair a b in
        if ports cmb' = None \<or> ports cmb_reverse = None
        then (ports(cmb' \<mapsto> np, cmb_reverse \<mapsto> np), np + 1)
        else (ports, np))"

definition port_loop :: "(string \<rightharpoonup> int) \<times> int \<Rightarrow> string list \<Rightarrow> (string \<rightharpoonup> int) \<times> int" where
  "port_loop st ids = foldl port_step st (combinations2 ids)"

section \<open>The run\<close>

text \<open>
  Lines 28 to 75: the dictionary \<open>data\<close> at line 77, or the error raised on the way.
  The previous neighbour table is cleared at line 33.
\<close>

definition compute :: "data \<Rightarrow> hosts \<Rightarrow> error + data" where
  "compute d h =
     (case neighbour_loop (meshrouters h) (Map.empty, Map.empty) (dn42routers h) of
        Inl e \<Rightarrow> Inl e
      | Inr (nb, seen) \<Rightarrow>
          (case port_loop (igp_wg_ports d, next_port d) (map fst (dn42routers h)) of
             (ports, np) \<Rightarrow> Inr \<lparr>next_port = np, igp_neighbours = nb, igp_wg_ports = ports\<rparr>))"

text \<open>
  \<open>main\<close> on the content of \<open>OUTFILE\<close>: the error raised (if any) and the content of
  \<open>OUTFILE\<close> afterwards. The file is written at lines 78 to 80 only.
\<close>

definition main :: "data option \<Rightarrow> hosts \<Rightarrow> error option \<times> data option" where
  "main outfile h =
     (case compute (read_previous_settings outfile) h of
        Inl e \<Rightarrow> (Some e, outfile)
      | Inr d \<Rightarrow> (None, Some d))"

section \<open>Notions used in the statements\<close>

text \<open>
  The port table is keyed by joined strings, so two pairs can share a key when an
  identifier contains a comma. Inventory host names do not; \<open>comma_free\<close> says so.
\<close>

definition comma_free :: "string \<Rightarrow> bool" where
  "comma_free s = (CHR '','' \<notin> set s)"

text \<open>The two keys of a pair, and whether the table lacks one of them (the test of line 69).\<close>

definition pair_keys :: "string \<times> string \<Rightarrow> string set" where
  "pair_keys p = {join_pair (fst p) (snd p), join_pair (snd p) (fst p)}"

definition missing :: "(string \<rightharpoonup> int) \<Rightarrow> string \<times> string \<Rightarrow> bool" where
  "missing ports p = (ports (join_pair (fst p) (snd p)) = None \<or> ports (join_pair (snd p) (fst p)) = None)"

text \<open>A list of pairs no two of which share a key.\<close>

definition indep :: "(string \<times> string) list \<Rightarrow> bool" where
  "indep ps = (distinct ps \<and> (\<forall>p\<in>set ps. \<forall>q\<in>set ps. p \<noteq> q \<longrightarrow> pair_keys p \<inter> pair_keys q = {}))"

text \<open>
  A port table in which the two keys of every pair of comma-free identifiers hold the same
  value (or are both absent).
\<close>

definition symmetric_table :: "(string \<rightharpoonup> int) \<Rightarrow> bool" where
  "symmetric_table ports =
     (\<forall>A B. comma_free A \<and> comma_free B \<longrightarrow> ports (join_pair A B) = ports (join_pair B A))"

text \<open>
  The structural constraint in the words of the specification: a router violates it when it
  is a mesh member and declares upstreams, or is neither.
\<close>

definition violates_xor :: "string list \<Rightarrow> string \<times> serverdata \<Rightarrow> bool" where
  "violates_xor mesh e =
     ((fst e \<in> set mesh \<and> upstream_list (snd e) \<noteq> []) \<or> (fst e \<notin> set mesh \<and> upstream_list (snd e) = []))"

text \<open>The upstreams that the inventory declares for a router identifier.\<close>

definition upstreams_of :: "(string \<times> serverdata) list \<Rightarrow> string \<Rightarrow> string set" where
  "upstreams_of rs A = set (concat (map (\<lambda>e. upstream_list (snd e)) (filter (\<lambda>e. fst e = A) rs)))"

text \<open>The neighbour table after the routers \<open>seenrs\<close> have been processed.\<close>

definition adj_inv :: "string list \<Rightarrow> (string \<times> serverdata) list \<Rightarrow> (string \<rightharpoonup> string set) \<Rightarrow> bool" where
  "adj_inv mesh seenrs nb =
     (\<forall>A B. B \<in> setdefault_get nb A \<longleftrightarrow>
        (A \<noteq> B \<and> A \<in> fst ` set seenrs \<and> A \<in> set mesh \<and> B \<in> set mesh)
        \<or> B \<in> upstreams_of seenrs A \<or> A \<in> upstreams_of seenrs B)"

text \<open>A previous port table with one complete pair, used in the examples.\<close>

definition ex_ports :: "string \<rightharpoonup> int" where
  "ex_ports = [''a,b'' \<mapsto> 55000, ''b,a'' \<mapsto> 55000]"

text \<open>
  An inventory used in the examples: mesh routers \<open>x\<close> and \<open>y\<close>, and a leaf \<open>w\<close> whose
  upstreams are \<open>x\<close> and an identifier \<open>v\<close> that is not in the inventory. \<open>ex_out\<close> is what a
  run without a previous file writes for it.
\<close>

definition ex_hosts :: hosts where
  "ex_hosts = \<lparr>dn42routers =
       [(''x'', \<lparr>shortname = ''sx'', igp_upstreams = None\<rparr>),
        (''y'', \<lparr>shortname = ''sy'', igp_upstreams = None\<rparr>),
        (''w'', \<lparr>shortname = ''sw'', igp_upstreams = Some [''x'', ''v'']\<rparr>)],
     meshrouters = [''x'', ''y'']\<rparr>"

definition ex_out :: data where
  "ex_out = \<lparr>next_port = 55003,
      igp_neighbours = [''x'' \<mapsto> {''y'', ''w''}, ''y'' \<mapsto> {''x''}, ''w'' \<mapsto> {''x'', ''v''}, ''v'' \<mapsto> {''w''}],
      igp_wg_ports = [''x,y'' \<mapsto> 55000, ''y,x'' \<mapsto> 55000, ''x,w'' \<mapsto> 55001,
                      ''w,x'' \<mapsto> 55001, ''y,w'' \<mapsto> 55002, ''w,y'' \<mapsto> 55002]\<rparr>"

section \<open>Keys and combinations\<close>

lemma join_pair_inj:
  "comma_free a \<Longrightarrow> comma_free c \<Longrightarrow> join_pair a b = join_pair c d \<Longrightarrow> a = c \<and> b = d"
proof (induction a arbitrary: c)
  case Nil
  then show ?case by (cases c) (auto simp: join_pair_def comma_free_def)
next
  case (Cons x a)
  then show ?case by (cases c) (auto simp: join_pair_def comma_free_def)
qed

lemma join_pair_eq_iff:
  "comma_free a \<Longrightarrow> comma_free c \<Longrightarrow> join_pair a b = join_pair c d \<longleftrightarrow> a = c \<and> b = d"
  using join_pair_inj by blast

lemma combinations2_set: "(a, b) \<in> set (combinations2 xs) \<Longrightarrow> a \<in> set xs \<and> b \<in> set xs"
  by (induction xs) auto

lemma combinations2_distinct_pair:
  "distinct xs \<Longrightarrow> (a, b) \<in> set (combinations2 xs) \<Longrightarrow> a \<noteq> b \<and> (b, a) \<notin> set (combinations2 xs)"
  by (induction xs) (auto dest: combinations2_set)

lemma combinations2_distinct: "distinct xs \<Longrightarrow> distinct (combinations2 xs)"
  by (induction xs) (auto simp: distinct_map inj_on_def dest: combinations2_set)

lemma combinations2_total:
  "a \<in> set xs \<Longrightarrow> b \<in> set xs \<Longrightarrow> a \<noteq> b \<Longrightarrow> (a, b) \<in> set (combinations2 xs) \<or> (b, a) \<in> set (combinations2 xs)"
  by (induction xs) auto

section \<open>One step of the port loop\<close>

lemma port_step_other: "k \<notin> pair_keys p \<Longrightarrow> fst (port_step (ports, np) p) k = ports k"
  by (cases p) (auto simp: port_step_def pair_keys_def Let_def)

lemma port_step_counter: "snd (port_step (ports, np) p) = (if missing ports p then np + 1 else np)"
  by (cases p) (auto simp: port_step_def missing_def Let_def)

lemma port_step_present: "\<not> missing ports p \<Longrightarrow> port_step (ports, np) p = (ports, np)"
  by (cases p) (auto simp: port_step_def missing_def Let_def)

lemma port_step_missing:
  "missing ports p \<Longrightarrow> port_step (ports, np) p =
     (ports(join_pair (fst p) (snd p) \<mapsto> np, join_pair (snd p) (fst p) \<mapsto> np), np + 1)"
  by (cases p) (auto simp: port_step_def missing_def Let_def)

lemma port_step_dom: "ports k \<noteq> None \<Longrightarrow> fst (port_step (ports, np) p) k \<noteq> None"
  by (cases p) (auto simp: port_step_def Let_def)

lemma port_step_after: "\<not> missing (fst (port_step (ports, np) p)) p"
  by (cases p) (auto simp: port_step_def missing_def Let_def)

section \<open>The port loop as a fold\<close>

lemma foldl_port_step_dom:
  "ports k \<noteq> None \<Longrightarrow> fst (foldl port_step (ports, np) ps) k \<noteq> None"
proof (induction ps arbitrary: ports np)
  case Nil then show ?case by simp
next
  case (Cons p ps)
  obtain ports1 np1 where s: "port_step (ports, np) p = (ports1, np1)" by (cases "port_step (ports, np) p")
  have "ports1 k \<noteq> None" using port_step_dom[of ports k np p] Cons.prems s by simp
  from Cons.IH[where ports=ports1 and np=np1] this show ?case using s by simp
qed


lemma foldl_port_step_other:
  "\<forall>p\<in>set ps. k \<notin> pair_keys p \<Longrightarrow> fst (foldl port_step (ports, np) ps) k = ports k"
proof (induction ps arbitrary: ports np)
  case Nil then show ?case by simp
next
  case (Cons p ps)
  obtain ports1 np1 where s: "port_step (ports, np) p = (ports1, np1)" by (cases "port_step (ports, np) p")
  have "ports1 k = ports k" using port_step_other[of k p ports np] Cons.prems s by simp
  moreover have "fst (foldl port_step (ports1, np1) ps) k = ports1 k" using Cons by simp
  ultimately show ?case using s by simp
qed

lemma missing_dom_mono: "\<not> missing ports p \<Longrightarrow> (\<And>k. ports k \<noteq> None \<Longrightarrow> ports1 k \<noteq> None) \<Longrightarrow> \<not> missing ports1 p"
  by (auto simp: missing_def)

lemma foldl_port_step_present:
  "\<forall>p\<in>set ps. \<not> missing ports p \<Longrightarrow> foldl port_step (ports, np) ps = (ports, np)"
  by (induction ps) (auto simp: port_step_present)

lemma foldl_port_step_after:
  "p \<in> set ps \<Longrightarrow> \<not> missing (fst (foldl port_step (ports, np) ps)) p"
proof (induction ps arbitrary: ports np)
  case Nil then show ?case by simp
next
  case (Cons q ps)
  obtain ports1 np1 where s: "port_step (ports, np) q = (ports1, np1)" by (cases "port_step (ports, np) q")
  show ?case
  proof (cases "p \<in> set ps")
    case True
    from Cons.IH[OF this] show ?thesis using s by simp
  next
    case False
    then have "p = q" using Cons.prems by simp
    then have "\<not> missing ports1 p" using port_step_after[of ports np q] s by simp
    then have "\<not> missing (fst (foldl port_step (ports1, np1) ps)) p"
      by (rule missing_dom_mono) (rule foldl_port_step_dom)
    then show ?thesis using s by simp
  qed
qed

lemma indep_Cons: "indep (p # ps) \<Longrightarrow> indep ps \<and> (\<forall>q\<in>set ps. pair_keys p \<inter> pair_keys q = {})"
  by (auto simp: indep_def)

lemma indep_combinations2:
  assumes d: "distinct ids" and cf: "\<forall>i\<in>set ids. comma_free i"
  shows "indep (combinations2 ids)"
  unfolding indep_def
proof (intro conjI ballI impI)
  show "distinct (combinations2 ids)" using d by (rule combinations2_distinct)
next
  fix p q assume p: "p \<in> set (combinations2 ids)" and q: "q \<in> set (combinations2 ids)" and ne: "p \<noteq> q"
  obtain a b where pab: "p = (a, b)" by (cases p)
  obtain c e where qce: "q = (c, e)" by (cases q)
  have mem: "a \<in> set ids" "b \<in> set ids" "c \<in> set ids" "e \<in> set ids"
    using p q pab qce combinations2_set[of a b ids] combinations2_set[of c e ids] by simp_all
  then have cfs: "comma_free a" "comma_free b" "comma_free c" "comma_free e" using cf by auto
  have nrev: "(b, a) \<notin> set (combinations2 ids)"
    using combinations2_distinct_pair[OF d] p pab by blast
  have "join_pair a b \<noteq> join_pair c e" using join_pair_inj[OF cfs(1) cfs(3)] ne pab qce by blast
  moreover have "join_pair a b \<noteq> join_pair e c" using join_pair_inj[OF cfs(1) cfs(4)] nrev q qce by blast
  moreover have "join_pair b a \<noteq> join_pair c e" using join_pair_inj[OF cfs(2) cfs(3)] nrev q qce by blast
  moreover have "join_pair b a \<noteq> join_pair e c" using join_pair_inj[OF cfs(2) cfs(4)] ne pab qce by blast
  ultimately show "pair_keys p \<inter> pair_keys q = {}" by (simp add: pair_keys_def pab qce)
qed

lemma missing_cong: "\<forall>k\<in>pair_keys p. ports1 k = ports k \<Longrightarrow> missing ports1 p = missing ports p"
  by (simp add: missing_def pair_keys_def)

lemma port_step_disjoint:
  "pair_keys q \<inter> pair_keys p = {} \<Longrightarrow> \<forall>k\<in>pair_keys p. fst (port_step (ports, np) q) k = ports k"
  using port_step_other by blast


lemma foldl_port_step_count:
  "indep ps \<Longrightarrow> snd (foldl port_step (ports, np) ps) = np + int (length (filter (missing ports) ps))"
proof (induction ps arbitrary: ports np)
  case Nil then show ?case by simp
next
  case (Cons q ps)
  obtain ports1 np1 where s: "port_step (ports, np) q = (ports1, np1)" by (cases "port_step (ports, np) q")
  have ind: "indep ps" and dis: "\<forall>r\<in>set ps. pair_keys q \<inter> pair_keys r = {}"
    using indep_Cons[OF Cons.prems(1)] by auto
  have np1: "np1 = (if missing ports q then np + 1 else np)"
    using port_step_counter[of ports np q] s by simp
  have "\<forall>r\<in>set ps. missing ports1 r = missing ports r"
  proof
    fix r assume "r \<in> set ps"
    then have "\<forall>k\<in>pair_keys r. ports1 k = ports k"
      using port_step_disjoint[of q r ports np] dis s by simp
    then show "missing ports1 r = missing ports r" by (rule missing_cong)
  qed
  then have "filter (missing ports1) ps = filter (missing ports) ps" by (auto intro: filter_cong)
  with Cons.IH[OF ind, of ports1 np1] np1 s show ?case by simp
qed

section \<open>The counter stays above the table\<close>

lemma port_step_invariant:
  "\<forall>k v. ports k = Some v \<longrightarrow> v < np \<Longrightarrow> port_step (ports, np) p = (ports1, np1)
     \<Longrightarrow> \<forall>k v. ports1 k = Some v \<longrightarrow> v < np1"
  by (cases p) (fastforce simp: port_step_def Let_def split: if_splits)

lemma foldl_port_step_invariant:
  "\<forall>k v. ports k = Some v \<longrightarrow> v < np \<Longrightarrow> foldl port_step (ports, np) ps = (ports', np')
     \<Longrightarrow> \<forall>k v. ports' k = Some v \<longrightarrow> v < np'"
proof (induction ps arbitrary: ports np)
  case Nil then show ?case by simp
next
  case (Cons p ps)
  obtain ports1 np1 where s: "port_step (ports, np) p = (ports1, np1)" by (cases "port_step (ports, np) p")
  have "\<forall>k v. ports1 k = Some v \<longrightarrow> v < np1" using Cons.prems(1) s by (rule port_step_invariant)
  moreover have "foldl port_step (ports1, np1) ps = (ports', np')" using Cons.prems(2) s by simp
  ultimately show ?case by (rule Cons.IH)
qed

text \<open>
  Claim C4. If the previous \<open>next_port\<close> is strictly greater than every port number in the
  previous port table, then after the port loop the new \<open>next_port\<close> is strictly greater
  than every port number in the new port table.
\<close>

theorem C4_counter_above_table:
  assumes "\<forall>k v. ports k = Some v \<longrightarrow> v < np"
    and "port_loop (ports, np) ids = (ports', np')"
  shows "\<forall>k v. ports' k = Some v \<longrightarrow> v < np'"
  using assms unfolding port_loop_def by (rule foldl_port_step_invariant)

lemma ex_run: "port_loop (ex_ports, 55001) [''a'', ''b'', ''c''] =
     (ex_ports(''a,c'' \<mapsto> 55001, ''c,a'' \<mapsto> 55001, ''b,c'' \<mapsto> 55002, ''c,b'' \<mapsto> 55002), 55003)"
  by (simp add: port_loop_def port_step_def join_pair_def ex_ports_def)

theorem C4_counter_above_table_witness:
  "snd (port_loop (ex_ports, 55001) [''a'', ''b'', ''c'']) = 55003
   \<and> fst (port_loop (ex_ports, 55001) [''a'', ''b'', ''c'']) ''a,b'' = Some 55000
   \<and> (\<exists>v. fst (port_loop (ex_ports, 55001) [''a'', ''b'', ''c'']) ''b,c'' = Some v
          \<and> v < snd (port_loop (ex_ports, 55001) [''a'', ''b'', ''c'']))"
proof -
  have h: "\<forall>k v. ex_ports k = Some v \<longrightarrow> v < 55001"
    by (simp add: ex_ports_def)
  have "\<forall>k v. (ex_ports(''a,c'' \<mapsto> 55001, ''c,a'' \<mapsto> 55001, ''b,c'' \<mapsto> 55002, ''c,b'' \<mapsto> 55002)) k = Some v \<longrightarrow> v < 55003"
    using C4_counter_above_table[OF h ex_run] .
  then have "\<forall>v. (ex_ports(''a,c'' \<mapsto> 55001, ''c,a'' \<mapsto> 55001, ''b,c'' \<mapsto> 55002, ''c,b'' \<mapsto> 55002)) ''b,c'' = Some v \<longrightarrow> v < 55003"
    by blast
  then show ?thesis unfolding ex_run fst_conv snd_conv by (simp add: ex_ports_def)
qed

section \<open>What the port loop does to a pair\<close>

lemma ex_ids_distinct: "distinct [''a'', ''b'', ''c'']"
  by simp

lemma ex_ids_comma_free: "\<forall>i\<in>set [''a'', ''b'', ''c'']. comma_free i"
  by (simp add: comma_free_def)

lemma indep_append:
  "indep (pre @ p # post) \<Longrightarrow>
     indep pre \<and> (\<forall>q\<in>set pre. pair_keys q \<inter> pair_keys p = {}) \<and> (\<forall>q\<in>set post. pair_keys q \<inter> pair_keys p = {})"
  by (auto simp: indep_def)

lemma foldl_port_step_at:
  assumes ind: "indep (pre @ p # post)"
  shows "(if missing ports p
          then fst (foldl port_step (ports, np) (pre @ p # post)) (join_pair (fst p) (snd p))
                 = Some (np + int (length (filter (missing ports) pre)))
             \<and> fst (foldl port_step (ports, np) (pre @ p # post)) (join_pair (snd p) (fst p))
                 = Some (np + int (length (filter (missing ports) pre)))
          else fst (foldl port_step (ports, np) (pre @ p # post)) (join_pair (fst p) (snd p))
                 = ports (join_pair (fst p) (snd p))
             \<and> fst (foldl port_step (ports, np) (pre @ p # post)) (join_pair (snd p) (fst p))
                 = ports (join_pair (snd p) (fst p)))"
proof -
  from indep_append[OF ind] have ipre: "indep pre"
    and dpre: "\<forall>q\<in>set pre. pair_keys q \<inter> pair_keys p = {}"
    and dpost: "\<forall>q\<in>set post. pair_keys q \<inter> pair_keys p = {}" by simp_all
  let ?k1 = "join_pair (fst p) (snd p)" and ?k2 = "join_pair (snd p) (fst p)"
  have kp: "?k1 \<in> pair_keys p" "?k2 \<in> pair_keys p" by (simp_all add: pair_keys_def)
  obtain ports1 np1 where s1: "foldl port_step (ports, np) pre = (ports1, np1)"
    by (cases "foldl port_step (ports, np) pre")
  have np1: "np1 = np + int (length (filter (missing ports) pre))"
    using foldl_port_step_count[OF ipre, of ports np] s1 by simp
  have same1: "\<forall>k\<in>pair_keys p. ports1 k = ports k"
  proof
    fix k assume "k \<in> pair_keys p"
    then have "\<forall>q\<in>set pre. k \<notin> pair_keys q" using dpre by blast
    then show "ports1 k = ports k" using foldl_port_step_other[of pre k ports np] s1 by simp
  qed
  then have m1: "missing ports1 p = missing ports p" by (rule missing_cong)
  obtain ports2 np2 where s2: "port_step (ports1, np1) p = (ports2, np2)"
    by (cases "port_step (ports1, np1) p")
  have post: "\<forall>k\<in>pair_keys p. fst (foldl port_step (ports2, np2) post) k = ports2 k"
  proof
    fix k assume "k \<in> pair_keys p"
    then have "\<forall>q\<in>set post. k \<notin> pair_keys q" using dpost by blast
    then show "fst (foldl port_step (ports2, np2) post) k = ports2 k" by (rule foldl_port_step_other)
  qed
  have whole: "foldl port_step (ports, np) (pre @ p # post) = foldl port_step (ports2, np2) post"
    using s1 s2 by simp
  show ?thesis
  proof (cases "missing ports p")
    case True
    then have "ports2 = ports1(?k1 \<mapsto> np1, ?k2 \<mapsto> np1)"
      using port_step_missing[of ports1 p np1] m1 s2 by simp
    then have "ports2 ?k1 = Some np1" "ports2 ?k2 = Some np1" by simp_all
    then show ?thesis using True post kp whole np1 by simp
  next
    case False
    then have "ports2 = ports1" using port_step_present[of ports1 p np1] m1 s2 by simp
    then show ?thesis using False post kp whole same1 by simp
  qed
qed

lemma combinations2_position:
  assumes "A \<in> set ids" "B \<in> set ids" "A \<noteq> B"
  shows "\<exists>pre post. combinations2 ids = pre @ (A, B) # post \<or> combinations2 ids = pre @ (B, A) # post"
  using combinations2_total[OF assms] by (meson split_list)

text \<open>
  Claim C1, as the code has it. The identifiers of the inventory are distinct and contain
  no comma. Two distinct routers \<open>A\<close> and \<open>B\<close> of the inventory are enumerated once, after
  the pairs \<open>pre\<close>. When both keys \<open>A,B\<close> and \<open>B,A\<close> are in the previous table, both keep
  their values. When at least one of them is missing, both keys are set to the counter
  value at that moment, which is the previous \<open>next_port\<close> plus the number of pairs before
  it that lacked a key; a value held under the other key is overwritten. The counter grows
  by the number of pairs that lacked a key.
\<close>

theorem C1_fresh_value_exact:
  assumes "distinct ids" and "\<forall>i\<in>set ids. comma_free i"
    and "port_loop (ports, np) ids = (ports', np')"
    and "A \<in> set ids" and "B \<in> set ids" and "A \<noteq> B"
  shows "(\<exists>pre post.
            (combinations2 ids = pre @ (A, B) # post \<or> combinations2 ids = pre @ (B, A) # post)
          \<and> (if ports (join_pair A B) = None \<or> ports (join_pair B A) = None
              then ports' (join_pair A B) = Some (np + int (length (filter (missing ports) pre)))
                 \<and> ports' (join_pair B A) = Some (np + int (length (filter (missing ports) pre)))
              else ports' (join_pair A B) = ports (join_pair A B)
                 \<and> ports' (join_pair B A) = ports (join_pair B A)))
       \<and> np' = np + int (length (filter (missing ports) (combinations2 ids)))"
proof -
  have ind: "indep (combinations2 ids)" using assms(1,2) by (rule indep_combinations2)
  have run: "foldl port_step (ports, np) (combinations2 ids) = (ports', np')"
    using assms(3) by (simp add: port_loop_def)
  obtain pre post where pos:
    "combinations2 ids = pre @ (A, B) # post \<or> combinations2 ids = pre @ (B, A) # post"
    using combinations2_position[OF assms(4,5,6)] by blast
  have "if ports (join_pair A B) = None \<or> ports (join_pair B A) = None
              then ports' (join_pair A B) = Some (np + int (length (filter (missing ports) pre)))
                 \<and> ports' (join_pair B A) = Some (np + int (length (filter (missing ports) pre)))
              else ports' (join_pair A B) = ports (join_pair A B)
                 \<and> ports' (join_pair B A) = ports (join_pair B A)"
  proof (rule disjE[OF pos])
    assume c: "combinations2 ids = pre @ (A, B) # post"
    have i: "indep (pre @ (A, B) # post)" using ind c by simp
    have f: "fst (foldl port_step (ports, np) (pre @ (A, B) # post)) = ports'" using run c by simp
    show ?thesis
      using foldl_port_step_at[OF i, of ports np] unfolding f
      by (auto simp: missing_def split: if_splits)
  next
    assume c: "combinations2 ids = pre @ (B, A) # post"
    have i: "indep (pre @ (B, A) # post)" using ind c by simp
    have f: "fst (foldl port_step (ports, np) (pre @ (B, A) # post)) = ports'" using run c by simp
    show ?thesis
      using foldl_port_step_at[OF i, of ports np] unfolding f
      by (auto simp: missing_def split: if_splits)
  qed
  moreover have "np' = np + int (length (filter (missing ports) (combinations2 ids)))"
    using foldl_port_step_count[OF ind, of ports np] run by simp
  ultimately show ?thesis using pos by blast
qed

theorem C1_fresh_value_exact_witness:
  "fst (port_loop (ex_ports, 55001) [''a'', ''b'', ''c'']) ''b,c'' = Some (55001 + 1)
   \<and> fst (port_loop (ex_ports, 55001) [''a'', ''b'', ''c'']) ''c,b'' = Some (55001 + 1)
   \<and> snd (port_loop (ex_ports, 55001) [''a'', ''b'', ''c'']) = 55001 + 2"
proof -
  note inst = C1_fresh_value_exact[OF ex_ids_distinct ex_ids_comma_free ex_run, of "''b''" "''c''"]
  have cs: "combinations2 [''a'', ''b'', ''c''] = [(''a'', ''b''), (''a'', ''c''), (''b'', ''c'')]"
    by simp
  have bc: "ex_ports (join_pair ''b'' ''c'') = None" by (simp add: ex_ports_def join_pair_def)
  have n: "length (filter (missing ex_ports) (combinations2 [''a'', ''b'', ''c''])) = 2"
    by (simp add: missing_def ex_ports_def join_pair_def)
  obtain pre post where pos: "combinations2 [''a'', ''b'', ''c''] = pre @ (''b'', ''c'') # post
        \<or> combinations2 [''a'', ''b'', ''c''] = pre @ (''c'', ''b'') # post"
    and v: "fst (port_loop (ex_ports, 55001) [''a'', ''b'', ''c'']) (join_pair ''b'' ''c'')
               = Some (55001 + int (length (filter (missing ex_ports) pre)))
          \<and> fst (port_loop (ex_ports, 55001) [''a'', ''b'', ''c'']) (join_pair ''c'' ''b'')
               = Some (55001 + int (length (filter (missing ex_ports) pre)))"
    and c: "snd (port_loop (ex_ports, 55001) [''a'', ''b'', ''c''])
              = 55001 + int (length (filter (missing ex_ports) (combinations2 [''a'', ''b'', ''c''])))"
    using inst bc unfolding ex_run fst_conv snd_conv by auto
  from pos have "pre = [(''a'', ''b''), (''a'', ''c'')]"
    unfolding cs by (auto simp: Cons_eq_append_conv)
  then have "length (filter (missing ex_ports) pre) = 1"
    by (simp add: missing_def ex_ports_def join_pair_def)
  with v c n show ?thesis by (simp add: join_pair_def)
qed

text \<open>
  Claim C1 as written fails: with only the key \<open>A,B\<close> in the previous table, its value is
  not reused; both keys get the counter value and the counter is incremented.
\<close>

theorem C1_counterexample:
  "[''A,B'' \<mapsto> (55000::int)] ''A,B'' = Some 55000
   \<and> fst (port_loop ([''A,B'' \<mapsto> 55000], 55001) [''A'', ''B'']) ''A,B'' = Some 55001
   \<and> fst (port_loop ([''A,B'' \<mapsto> 55000], 55001) [''A'', ''B'']) ''B,A'' = Some 55001
   \<and> snd (port_loop ([''A,B'' \<mapsto> 55000], 55001) [''A'', ''B'']) = 55002"
  by (simp add: port_loop_def port_step_def join_pair_def)

lemma port_step_symmetric:
  assumes "symmetric_table ports" and "comma_free a" and "comma_free b"
  shows "symmetric_table (fst (port_step (ports, np) (a, b)))"
proof (cases "missing ports (a, b)")
  case False
  then show ?thesis using assms(1) by (simp add: port_step_present)
next
  case True
  have "fst (port_step (ports, np) (a, b)) = ports(join_pair a b \<mapsto> np, join_pair b a \<mapsto> np)"
    using port_step_missing[OF True, of np] by simp
  moreover have "symmetric_table (ports(join_pair a b \<mapsto> np, join_pair b a \<mapsto> np))"
    unfolding symmetric_table_def
  proof (intro allI impI)
    fix A B assume cf: "comma_free A \<and> comma_free B"
    then have old: "ports (join_pair A B) = ports (join_pair B A)"
      using assms(1) by (simp add: symmetric_table_def)
    from cf have cA: "comma_free A" and cB: "comma_free B" by simp_all
    have 1: "join_pair A B = join_pair a b \<longleftrightarrow> A = a \<and> B = b"
      using cA assms(2) by (rule join_pair_eq_iff)
    have 2: "join_pair A B = join_pair b a \<longleftrightarrow> A = b \<and> B = a"
      using cA assms(3) by (rule join_pair_eq_iff)
    have 3: "join_pair B A = join_pair a b \<longleftrightarrow> B = a \<and> A = b"
      using cB assms(2) by (rule join_pair_eq_iff)
    have 4: "join_pair B A = join_pair b a \<longleftrightarrow> B = b \<and> A = a"
      using cB assms(3) by (rule join_pair_eq_iff)
    show "(ports(join_pair a b \<mapsto> np, join_pair b a \<mapsto> np)) (join_pair A B)
        = (ports(join_pair a b \<mapsto> np, join_pair b a \<mapsto> np)) (join_pair B A)"
    proof (cases "(A = a \<and> B = b) \<or> (A = b \<and> B = a)")
      case True
      then show ?thesis by (elim disjE conjE) simp_all
    next
      case False
      then have "join_pair A B \<noteq> join_pair a b" "join_pair A B \<noteq> join_pair b a"
        "join_pair B A \<noteq> join_pair a b" "join_pair B A \<noteq> join_pair b a"
        unfolding 1 2 3 4 by blast+
      then show ?thesis using old by simp
    qed
  qed
  ultimately show ?thesis by simp
qed

lemma foldl_port_step_symmetric:
  assumes "symmetric_table ports" and "\<forall>p\<in>set ps. comma_free (fst p) \<and> comma_free (snd p)"
  shows "symmetric_table (fst (foldl port_step (ports, np) ps))"
  using assms
proof (induction ps arbitrary: ports np)
  case Nil
  then show ?case by simp
next
  case (Cons p ps)
  obtain a b where p: "p = (a, b)" by (cases p)
  obtain ports1 np1 where s: "port_step (ports, np) (a, b) = (ports1, np1)"
    by (cases "port_step (ports, np) (a, b)")
  have "symmetric_table ports1"
    using port_step_symmetric[OF Cons.prems(1), of a b np] Cons.prems(2) s p by simp
  moreover have "\<forall>q\<in>set ps. comma_free (fst q) \<and> comma_free (snd q)" using Cons.prems(2) by simp
  ultimately have "symmetric_table (fst (foldl port_step (ports1, np1) ps))" by (rule Cons.IH)
  then show ?case using s p by simp
qed

lemma ex_ports_symmetric: "symmetric_table ex_ports"
proof -
  have e: "ex_ports = [join_pair ''a'' ''b'' \<mapsto> 55000, join_pair ''b'' ''a'' \<mapsto> 55000]"
    by (simp add: ex_ports_def join_pair_def)
  have c: "comma_free ''a''" "comma_free ''b''" by (simp_all add: comma_free_def)
  have "symmetric_table (fst (port_step (Map.empty, 55000) (''a'', ''b'')))"
    by (rule port_step_symmetric) (simp_all add: symmetric_table_def c)
  then show ?thesis by (simp add: e port_step_def)
qed

lemma symmetric_tableD:
  "symmetric_table ports \<Longrightarrow> comma_free A \<Longrightarrow> comma_free B \<Longrightarrow> ports (join_pair A B) = ports (join_pair B A)"
  by (simp add: symmetric_table_def)

text \<open>
  Claim C5. The identifiers of the inventory contain no comma, and the previous port table
  is symmetric (as the empty table is, and every table the script writes from one). Then the
  new port table is symmetric: the keys \<open>A,B\<close> and \<open>B,A\<close> hold the same value for all
  comma-free \<open>A\<close> and \<open>B\<close>, and every pair of distinct routers of the inventory has a value
  under both keys.
\<close>

theorem C5_symmetry_preserved:
  assumes "\<forall>i\<in>set ids. comma_free i"
    and "symmetric_table ports"
    and "port_loop (ports, np) ids = (ports', np')"
  shows "symmetric_table ports'
     \<and> (\<forall>A\<in>set ids. \<forall>B\<in>set ids. A \<noteq> B \<longrightarrow>
            ports' (join_pair A B) \<noteq> None \<and> ports' (join_pair A B) = ports' (join_pair B A))"
proof -
  have run: "foldl port_step (ports, np) (combinations2 ids) = (ports', np')"
    using assms(3) by (simp add: port_loop_def)
  have cf: "\<forall>p\<in>set (combinations2 ids). comma_free (fst p) \<and> comma_free (snd p)"
    using assms(1) combinations2_set[of _ _ ids] by fastforce
  have sym: "symmetric_table ports'"
    using foldl_port_step_symmetric[OF assms(2) cf, of np] run by simp
  have "\<forall>A\<in>set ids. \<forall>B\<in>set ids. A \<noteq> B \<longrightarrow>
            ports' (join_pair A B) \<noteq> None \<and> ports' (join_pair A B) = ports' (join_pair B A)"
  proof (intro ballI impI)
    fix A B assume A: "A \<in> set ids" and B: "B \<in> set ids" and ne: "A \<noteq> B"
    then obtain p where p: "p \<in> set (combinations2 ids)" and pk: "p = (A, B) \<or> p = (B, A)"
      using combinations2_total[OF A B ne] by blast
    have "\<not> missing ports' p"
      using foldl_port_step_after[OF p, of ports np] run by simp
    then have "ports' (join_pair A B) \<noteq> None" using pk by (auto simp: missing_def)
    moreover have "ports' (join_pair A B) = ports' (join_pair B A)"
      using sym A B assms(1) by (simp add: symmetric_table_def)
    ultimately show "ports' (join_pair A B) \<noteq> None \<and> ports' (join_pair A B) = ports' (join_pair B A)" ..
  qed
  with sym show ?thesis ..
qed

theorem C5_symmetry_preserved_witness:
  "fst (port_loop (ex_ports, 55001) [''a'', ''b'', ''c'']) ''b,c'' = Some 55002
   \<and> fst (port_loop (ex_ports, 55001) [''a'', ''b'', ''c'']) ''b,c''
       = fst (port_loop (ex_ports, 55001) [''a'', ''b'', ''c'']) ''c,b''
   \<and> fst (port_loop (ex_ports, 55001) [''a'', ''b'', ''c'']) ''a,b''
       = fst (port_loop (ex_ports, 55001) [''a'', ''b'', ''c'']) ''b,a''"
proof -
  let ?P = "fst (port_loop (ex_ports, 55001) [''a'', ''b'', ''c''])"
  have r: "port_loop (ex_ports, 55001) [''a'', ''b'', ''c''] = (?P, snd (port_loop (ex_ports, 55001) [''a'', ''b'', ''c'']))"
    by simp
  have sym: "symmetric_table ?P"
    using C5_symmetry_preserved[OF ex_ids_comma_free ex_ports_symmetric r] by (rule conjunct1)
  have c: "comma_free ''a''" "comma_free ''b''" "comma_free ''c''" by (simp_all add: comma_free_def)
  have bc: "?P (join_pair ''b'' ''c'') = ?P (join_pair ''c'' ''b'')"
    using sym c(2) c(3) by (rule symmetric_tableD)
  have ab: "?P (join_pair ''a'' ''b'') = ?P (join_pair ''b'' ''a'')"
    using sym c(1) c(2) by (rule symmetric_tableD)
  have v: "?P ''b,c'' = Some 55002" unfolding ex_run fst_conv by simp
  have k: "join_pair ''b'' ''c'' = ''b,c''" "join_pair ''c'' ''b'' = ''c,b''"
    "join_pair ''a'' ''b'' = ''a,b''" "join_pair ''b'' ''a'' = ''b,a''"
    by (simp_all add: join_pair_def)
  from bc ab v show ?thesis unfolding k by blast
qed






section \<open>A second run\<close>

lemma port_loop_fixpoint:
  assumes "port_loop (ports, np) ids = (ports', np')"
  shows "port_loop (ports', np') ids = (ports', np')"
proof -
  have "\<forall>p\<in>set (combinations2 ids). \<not> missing ports' p"
    using foldl_port_step_after[of _ "combinations2 ids" ports np] assms
    by (simp add: port_loop_def)
  then show ?thesis unfolding port_loop_def by (rule foldl_port_step_present)
qed

lemma compute_fixpoint: "compute d h = Inr d' \<Longrightarrow> compute d' h = Inr d'"
  by (auto simp: compute_def port_loop_fixpoint split: sum.splits prod.splits)

text \<open>
  Claim C3. When a run succeeds and writes the state \<open>d\<close>, a second run on the same
  inventory that reads \<open>d\<close> succeeds and writes \<open>d\<close> again: same counter, same neighbour
  table, same port table.
\<close>

theorem C3_second_run_identical:
  assumes "main outfile h = (None, Some d)"
  shows "main (Some d) h = (None, Some d)"
proof -
  have "compute (read_previous_settings outfile) h = Inr d"
    using assms by (auto simp: main_def split: sum.splits)
  then have "compute d h = Inr d" by (rule compute_fixpoint)
  then show ?thesis by (simp add: main_def read_previous_settings_def)
qed

section \<open>The neighbour loop\<close>

lemma setdefault_get_upd:
  "setdefault_get (nb(k \<mapsto> S)) k' = (if k' = k then S else setdefault_get nb k')"
  by (simp add: setdefault_get_def)

lemma setdefault_get_add_reverse_all:
  "setdefault_get (add_reverse_all s ups nb) k =
     (if k \<in> set ups then insert s (setdefault_get nb k) else setdefault_get nb k)"
  unfolding add_reverse_all_def
  by (induction ups arbitrary: nb) (auto simp: add_reverse_def setdefault_get_upd)

lemma add_reverse_all_dom: "nb k \<noteq> None \<Longrightarrow> add_reverse_all s ups nb k \<noteq> None"
  unfolding add_reverse_all_def
  by (induction ups arbitrary: nb) (auto simp: add_reverse_def)

lemma upstreams_of_iff:
  "u \<in> upstreams_of rs A \<longleftrightarrow> (\<exists>sd. (A, sd) \<in> set rs \<and> u \<in> set (upstream_list sd))"
  by (force simp: upstreams_of_def)

lemma upstreams_of_distinct:
  "distinct (map fst rs) \<Longrightarrow> (A, sd) \<in> set rs \<Longrightarrow> upstreams_of rs A = set (upstream_list sd)"
  by (auto simp: upstreams_of_iff dest: eq_key_imp_eq_value)

lemma neighbour_step_Inr:
  "neighbour_step mesh (nb, seen) (server, sd) = Inr (nb', seen') \<longleftrightarrow>
     seen (shortname sd) = None \<and> \<not> violates_xor mesh (server, sd)
     \<and> seen' = seen(shortname sd \<mapsto> server)
     \<and> nb' = add_reverse_all server (upstream_list sd)
               (nb(server \<mapsto> (if server \<in> set mesh then (setdefault_get nb server \<union> set mesh) - {server}
                                else setdefault_get nb server) \<union> set (upstream_list sd)))"
  by (auto simp: neighbour_step_def violates_xor_def Let_def split: option.splits)

lemma neighbour_step_Inl:
  "neighbour_step mesh (nb, seen) (server, sd) = Inl e \<longleftrightarrow>
     (case seen (shortname sd) of
        Some first \<Rightarrow> e = DuplicateShortname (shortname sd) first server
      | None \<Rightarrow> violates_xor mesh (server, sd) \<and> e = ConstraintViolation server)"
  by (auto simp: neighbour_step_def violates_xor_def Let_def split: option.splits)

lemma adj_inv_step:
  assumes inv: "adj_inv mesh seenrs nb"
    and ok: "\<forall>e\<in>set seenrs. \<not> violates_xor mesh e"
    and step: "neighbour_step mesh (nb, seen) (server, sd) = Inr (nb', seen')"
  shows "adj_inv mesh (seenrs @ [(server, sd)]) nb'"
proof -
  from step have nv: "\<not> violates_xor mesh (server, sd)"
    and nb': "nb' = add_reverse_all server (upstream_list sd)
               (nb(server \<mapsto> (if server \<in> set mesh then (setdefault_get nb server \<union> set mesh) - {server}
                                else setdefault_get nb server) \<union> set (upstream_list sd)))"
    by (simp_all add: neighbour_step_Inr)
  have old: "\<And>A B. B \<in> setdefault_get nb A \<longleftrightarrow>
        (A \<noteq> B \<and> A \<in> fst ` set seenrs \<and> A \<in> set mesh \<and> B \<in> set mesh)
        \<or> B \<in> upstreams_of seenrs A \<or> A \<in> upstreams_of seenrs B"
    using inv by (simp add: adj_inv_def)
  have ups: "\<And>X u. u \<in> upstreams_of (seenrs @ [(server, sd)]) X \<longleftrightarrow>
       u \<in> upstreams_of seenrs X \<or> (X = server \<and> u \<in> set (upstream_list sd))"
    by (auto simp: upstreams_of_iff)
  have meshups: "\<And>X u. X \<in> set mesh \<Longrightarrow> u \<notin> upstreams_of seenrs X"
    using ok by (force simp: upstreams_of_iff violates_xor_def)
  show ?thesis
  proof (cases "server \<in> set mesh")
    case True
    then have e: "upstream_list sd = []" using nv by (simp add: violates_xor_def)
    show ?thesis
      unfolding adj_inv_def nb' e
      using True meshups
      by (auto simp: setdefault_get_add_reverse_all setdefault_get_upd old ups e)
  next
    case False
    show ?thesis
      unfolding adj_inv_def nb'
      using False
      by (auto simp: setdefault_get_add_reverse_all setdefault_get_upd old ups)
  qed
qed

lemma neighbour_loop_adj_inv:
  assumes "adj_inv mesh seenrs nb" and "\<forall>e\<in>set seenrs. \<not> violates_xor mesh e"
    and "neighbour_loop mesh (nb, seen) rest = Inr (nb', seen')"
  shows "adj_inv mesh (seenrs @ rest) nb'"
  using assms
proof (induction rest arbitrary: seenrs nb seen)
  case Nil
  then show ?case by simp
next
  case (Cons e rest)
  obtain server sd where e: "e = (server, sd)" by (cases e)
  from Cons.prems(3) obtain nb1 seen1 where
    step: "neighbour_step mesh (nb, seen) (server, sd) = Inr (nb1, seen1)"
    and rest: "neighbour_loop mesh (nb1, seen1) rest = Inr (nb', seen')"
    by (auto simp: e split: sum.splits)
  have inv1: "adj_inv mesh (seenrs @ [(server, sd)]) nb1"
    using Cons.prems(1,2) step by (rule adj_inv_step)
  have ok1: "\<forall>x\<in>set (seenrs @ [(server, sd)]). \<not> violates_xor mesh x"
    using Cons.prems(2) step by (simp add: neighbour_step_Inr)
  from Cons.IH[OF inv1 ok1 rest] show ?case by (simp add: e)
qed

lemma adj_inv_empty: "adj_inv mesh [] Map.empty"
  by (simp add: adj_inv_def setdefault_get_def upstreams_of_def)

lemma neighbour_step_dom:
  assumes "neighbour_step mesh (nb, seen) (server, sd) = Inr (nb', seen')"
  shows "nb' server \<noteq> None \<and> (\<forall>k. nb k \<noteq> None \<longrightarrow> nb' k \<noteq> None)"
proof -
  let ?N = "(if server \<in> set mesh then (setdefault_get nb server \<union> set mesh) - {server}
             else setdefault_get nb server) \<union> set (upstream_list sd)"
  from assms have nb': "nb' = add_reverse_all server (upstream_list sd) (nb(server \<mapsto> ?N))"
    by (simp add: neighbour_step_Inr)
  have "\<And>k. (nb(server \<mapsto> ?N)) k \<noteq> None \<Longrightarrow> nb' k \<noteq> None"
    unfolding nb' by (rule add_reverse_all_dom)
  then show ?thesis by (metis fun_upd_apply option.distinct(1))
qed

lemma neighbour_loop_dom_mono:
  "neighbour_loop mesh (nb, seen) rest = Inr (nb', seen') \<Longrightarrow> nb k \<noteq> None \<Longrightarrow> nb' k \<noteq> None"
proof (induction rest arbitrary: nb seen)
  case Nil
  then show ?case by simp
next
  case (Cons e rest)
  obtain server sd where e: "e = (server, sd)" by (cases e)
  from Cons.prems(1) obtain nb1 seen1 where
    step: "neighbour_step mesh (nb, seen) (server, sd) = Inr (nb1, seen1)"
    and rest: "neighbour_loop mesh (nb1, seen1) rest = Inr (nb', seen')"
    by (auto simp: e split: sum.splits)
  have "nb1 k \<noteq> None" using neighbour_step_dom[OF step] Cons.prems(2) by simp
  with Cons.IH[OF rest] show ?case by simp
qed

lemma neighbour_loop_dom:
  "neighbour_loop mesh (nb, seen) rest = Inr (nb', seen') \<Longrightarrow> A \<in> fst ` set rest \<Longrightarrow> nb' A \<noteq> None"
proof (induction rest arbitrary: nb seen)
  case Nil
  then show ?case by simp
next
  case (Cons e rest)
  obtain server sd where e: "e = (server, sd)" by (cases e)
  from Cons.prems(1) obtain nb1 seen1 where
    step: "neighbour_step mesh (nb, seen) (server, sd) = Inr (nb1, seen1)"
    and rest: "neighbour_loop mesh (nb1, seen1) rest = Inr (nb', seen')"
    by (auto simp: e split: sum.splits)
  show ?case
  proof (cases "A = server")
    case True
    then have "nb1 A \<noteq> None" using neighbour_step_dom[OF step] by simp
    with neighbour_loop_dom_mono[OF rest] show ?thesis by simp
  next
    case False
    then have "A \<in> fst ` set rest" using Cons.prems(2) e by auto
    with Cons.IH[OF rest] show ?thesis by simp
  qed
qed

text \<open>The loop succeeds exactly on the inventories that pass both checks.\<close>

lemma neighbour_loop_ok_iff:
  "(\<exists>st'. neighbour_loop mesh (nb, seen) rs = Inr st') \<longleftrightarrow>
     (\<forall>e\<in>set rs. \<not> violates_xor mesh e) \<and> distinct (map (\<lambda>e. shortname (snd e)) rs)
     \<and> (\<forall>e\<in>set rs. seen (shortname (snd e)) = None)"
proof (induction rs arbitrary: nb seen)
  case Nil
  then show ?case by simp
next
  case (Cons e rs)
  obtain server sd where e: "e = (server, sd)" by (cases e)
  show ?case
  proof (cases "neighbour_step mesh (nb, seen) (server, sd)")
    case (Inl err)
    then have "seen (shortname sd) \<noteq> None \<or> violates_xor mesh (server, sd)"
      by (auto simp: neighbour_step_Inl split: option.splits)
    then show ?thesis using Inl by (auto simp: e)
  next
    case (Inr st1)
    obtain nb1 seen1 where st1: "st1 = (nb1, seen1)" by (cases st1)
    from Inr st1 have a: "seen (shortname sd) = None" "\<not> violates_xor mesh (server, sd)"
      "seen1 = seen(shortname sd \<mapsto> server)"
      by (simp_all add: neighbour_step_Inr)
    have "(\<exists>st'. neighbour_loop mesh (nb, seen) (e # rs) = Inr st')
            \<longleftrightarrow> (\<exists>st'. neighbour_loop mesh (nb1, seen1) rs = Inr st')"
      using Inr st1 by (simp add: e)
    also have "\<dots> \<longleftrightarrow> (\<forall>x\<in>set rs. \<not> violates_xor mesh x) \<and> distinct (map (\<lambda>e. shortname (snd e)) rs)
        \<and> (\<forall>x\<in>set rs. seen1 (shortname (snd x)) = None)"
      by (rule Cons.IH)
    also have "(\<forall>x\<in>set rs. seen1 (shortname (snd x)) = None)
        \<longleftrightarrow> shortname sd \<notin> (\<lambda>e. shortname (snd e)) ` set rs \<and> (\<forall>x\<in>set rs. seen (shortname (snd x)) = None)"
      unfolding a(3) by (force split: if_splits)
    finally show ?thesis using a(1,2) by (auto simp: e)
  qed
qed

lemma neighbour_loop_constraint_iff:
  "neighbour_loop mesh (nb, seen) rs = Inl (ConstraintViolation s) \<longleftrightarrow>
     (\<exists>pre r post. rs = pre @ r # post \<and> fst r = s \<and> violates_xor mesh r
        \<and> (\<forall>x\<in>set pre. \<not> violates_xor mesh x)
        \<and> distinct (map (\<lambda>e. shortname (snd e)) (pre @ [r]))
        \<and> (\<forall>x\<in>set (pre @ [r]). seen (shortname (snd x)) = None))"
  (is "?L nb seen rs \<longleftrightarrow> ?R seen rs")
proof (induction rs arbitrary: nb seen)
  case Nil
  then show ?case by simp
next
  case (Cons e rs)
  obtain server sd where e: "e = (server, sd)" by (cases e)
  show ?case
  proof (cases "neighbour_step mesh (nb, seen) (server, sd)")
    case (Inl err)
    show ?thesis
    proof (cases "seen (shortname sd)")
      case None
      with Inl have v: "violates_xor mesh (server, sd)" and err: "err = ConstraintViolation server"
        by (simp_all add: neighbour_step_Inl)
      have "?R seen (e # rs) \<longleftrightarrow> s = server"
      proof
        assume "?R seen (e # rs)"
        then obtain pre r post where d: "e # rs = pre @ r # post" "fst r = s"
          "\<forall>x\<in>set pre. \<not> violates_xor mesh x" by blast
        have "pre = []"
        proof (cases pre)
          case (Cons x xs)
          with d(1) have "x = e" by simp
          with d(3) Cons v e show ?thesis by simp
        qed simp
        with d show "s = server" by (auto simp: e)
      next
        assume "s = server"
        then have "e # rs = [] @ e # rs \<and> fst e = s \<and> violates_xor mesh e
            \<and> (\<forall>x\<in>set []. \<not> violates_xor mesh x)
            \<and> distinct (map (\<lambda>e. shortname (snd e)) ([] @ [e]))
            \<and> (\<forall>x\<in>set ([] @ [e]). seen (shortname (snd x)) = None)"
          using v None by (simp add: e)
        then show "?R seen (e # rs)" by blast
      qed
      then show ?thesis using Inl err by (auto simp: e)
    next
      case (Some first)
      have "\<not> ?R seen (e # rs)"
      proof
        assume "?R seen (e # rs)"
        then obtain pre r post where d: "e # rs = pre @ r # post"
          "\<forall>x\<in>set (pre @ [r]). seen (shortname (snd x)) = None" by blast
        from d(1) have "e \<in> set (pre @ [r])" by (cases pre) auto
        with d(2) Some show False by (force simp: e)
      qed
      moreover have "err = DuplicateShortname (shortname sd) first server"
        using Inl Some by (simp add: neighbour_step_Inl)
      ultimately show ?thesis using Inl by (simp add: e)
    qed
  next
    case (Inr st1)
    obtain nb1 seen1 where st1: "st1 = (nb1, seen1)" by (cases st1)
    from Inr st1 have a: "seen (shortname sd) = None" "\<not> violates_xor mesh (server, sd)"
      "seen1 = seen(shortname sd \<mapsto> server)"
      by (simp_all add: neighbour_step_Inr)
    have "?R seen (e # rs) \<longleftrightarrow> ?R seen1 rs"
    proof
      assume "?R seen (e # rs)"
      then obtain pre r post where d: "e # rs = pre @ r # post" "fst r = s" "violates_xor mesh r"
        "\<forall>x\<in>set pre. \<not> violates_xor mesh x"
        "distinct (map (\<lambda>e. shortname (snd e)) (pre @ [r]))"
        "\<forall>x\<in>set (pre @ [r]). seen (shortname (snd x)) = None" by blast
      obtain pre' where pre: "pre = e # pre'"
        using d(1,3) a(2) e by (cases pre) auto
      have "rs = pre' @ r # post" using d(1) pre by simp
      moreover have "\<forall>x\<in>set pre'. \<not> violates_xor mesh x" using d(4) pre by simp
      moreover have "distinct (map (\<lambda>e. shortname (snd e)) (pre' @ [r]))" using d(5) pre by simp
      moreover have "\<forall>x\<in>set (pre' @ [r]). seen1 (shortname (snd x)) = None"
        using d(5,6) pre a(3) e by force
      ultimately show "?R seen1 rs" using d(2,3) by blast
    next
      assume "?R seen1 rs"
      then obtain pre r post where d: "rs = pre @ r # post" "fst r = s" "violates_xor mesh r"
        "\<forall>x\<in>set pre. \<not> violates_xor mesh x"
        "distinct (map (\<lambda>e. shortname (snd e)) (pre @ [r]))"
        "\<forall>x\<in>set (pre @ [r]). seen1 (shortname (snd x)) = None" by blast
      have "e # rs = (e # pre) @ r # post" using d(1) by simp
      moreover have "\<forall>x\<in>set (e # pre). \<not> violates_xor mesh x" using d(4) a(2) e by simp
      moreover have "distinct (map (\<lambda>e. shortname (snd e)) ((e # pre) @ [r]))"
        using d(5,6) a(3) e by (force split: if_splits)
      moreover have "\<forall>x\<in>set ((e # pre) @ [r]). seen (shortname (snd x)) = None"
        using d(6) a(1,3) e by (force split: if_splits)
      ultimately show "?R seen (e # rs)" using d(2,3) by blast
    qed
    then show ?thesis using Inr st1 Cons.IH[of nb1 seen1] by (simp add: e)
  qed
qed

section \<open>The scenario of three mesh routers\<close>

lemma neighbour_step_mesh:
  assumes "server \<in> set mesh" and "upstream_list sd = []" and "seen (shortname sd) = None"
    and "nb server = None"
  shows "neighbour_step mesh (nb, seen) (server, sd)
           = Inr (nb(server \<mapsto> set mesh - {server}), seen(shortname sd \<mapsto> server))"
  using assms by (simp add: neighbour_step_def add_reverse_all_def setdefault_get_def)

lemma neighbour_loop_three_mesh:
  assumes d: "distinct [X, Y, Z]"
    and s: "distinct [shortname sx, shortname sy, shortname sz]"
    and u: "upstream_list sx = []" "upstream_list sy = []" "upstream_list sz = []"
    and m: "set mesh = {X, Y, Z}"
  shows "\<exists>seen. neighbour_loop mesh (Map.empty, Map.empty) [(X, sx), (Y, sy), (Z, sz)]
           = Inr ([X \<mapsto> {Y, Z}, Y \<mapsto> {X, Z}, Z \<mapsto> {X, Y}], seen)"
proof -
  have sets: "set mesh - {X} = {Y, Z}" "set mesh - {Y} = {X, Z}" "set mesh - {Z} = {X, Y}"
    using d m by auto
  have ne: "X \<noteq> Y" "Y \<noteq> X" "X \<noteq> Z" "Z \<noteq> X" "Y \<noteq> Z" "Z \<noteq> Y" using d by auto
  have sne: "shortname sx \<noteq> shortname sy" "shortname sy \<noteq> shortname sx"
    "shortname sx \<noteq> shortname sz" "shortname sz \<noteq> shortname sx"
    "shortname sy \<noteq> shortname sz" "shortname sz \<noteq> shortname sy" using s by auto
  have 1: "neighbour_step mesh (Map.empty, Map.empty) (X, sx)
             = Inr ([X \<mapsto> {Y, Z}], [shortname sx \<mapsto> X])"
    using neighbour_step_mesh[of X mesh sx Map.empty Map.empty] u m sets by simp
  have 2: "neighbour_step mesh ([X \<mapsto> {Y, Z}], [shortname sx \<mapsto> X]) (Y, sy)
             = Inr ([X \<mapsto> {Y, Z}, Y \<mapsto> {X, Z}], [shortname sx \<mapsto> X, shortname sy \<mapsto> Y])"
    using neighbour_step_mesh[of Y mesh sy "[shortname sx \<mapsto> X]" "[X \<mapsto> {Y, Z}]"] u m sets ne sne by simp
  have 3: "neighbour_step mesh ([X \<mapsto> {Y, Z}, Y \<mapsto> {X, Z}], [shortname sx \<mapsto> X, shortname sy \<mapsto> Y]) (Z, sz)
             = Inr ([X \<mapsto> {Y, Z}, Y \<mapsto> {X, Z}, Z \<mapsto> {X, Y}],
                    [shortname sx \<mapsto> X, shortname sy \<mapsto> Y, shortname sz \<mapsto> Z])"
    using neighbour_step_mesh[of Z mesh sz "[shortname sx \<mapsto> X, shortname sy \<mapsto> Y]" "[X \<mapsto> {Y, Z}, Y \<mapsto> {X, Z}]"]
      u m sets ne sne by simp
  show ?thesis by (simp add: 1 2 3)
qed

lemma port_step_fresh_pair:
  "ports (join_pair a b) = None \<Longrightarrow>
     port_step (ports, np) (a, b) = (ports(join_pair a b \<mapsto> np, join_pair b a \<mapsto> np), np + 1)"
  by (simp add: port_step_def)

lemma port_loop_three:
  assumes d: "distinct [X, Y, Z]" and c: "comma_free X" "comma_free Y" "comma_free Z"
  shows "port_loop (Map.empty, START_PORT) [X, Y, Z] =
     ([join_pair X Y \<mapsto> 55000, join_pair Y X \<mapsto> 55000,
       join_pair X Z \<mapsto> 55001, join_pair Z X \<mapsto> 55001,
       join_pair Y Z \<mapsto> 55002, join_pair Z Y \<mapsto> 55002], 55003)"
proof -
  have ne: "X \<noteq> Y" "Y \<noteq> X" "X \<noteq> Z" "Z \<noteq> X" "Y \<noteq> Z" "Z \<noteq> Y" using d by auto
  have 1: "port_step (Map.empty, 55000) (X, Y) = ([join_pair X Y \<mapsto> 55000, join_pair Y X \<mapsto> 55000], 55001)"
    by (simp add: port_step_fresh_pair)
  have 2: "port_step ([join_pair X Y \<mapsto> 55000, join_pair Y X \<mapsto> 55000], 55001) (X, Z)
     = ([join_pair X Y \<mapsto> 55000, join_pair Y X \<mapsto> 55000,
         join_pair X Z \<mapsto> 55001, join_pair Z X \<mapsto> 55001], 55002)"
    using ne c by (simp add: port_step_fresh_pair join_pair_eq_iff)
  have 3: "port_step ([join_pair X Y \<mapsto> 55000, join_pair Y X \<mapsto> 55000,
         join_pair X Z \<mapsto> 55001, join_pair Z X \<mapsto> 55001], 55002) (Y, Z)
     = ([join_pair X Y \<mapsto> 55000, join_pair Y X \<mapsto> 55000,
       join_pair X Z \<mapsto> 55001, join_pair Z X \<mapsto> 55001,
       join_pair Y Z \<mapsto> 55002, join_pair Z Y \<mapsto> 55002], 55003)"
    using ne c by (simp add: port_step_fresh_pair join_pair_eq_iff)
  show ?thesis by (simp add: port_loop_def START_PORT_def 1 2 3)
qed

text \<open>
  Claim C9. The inventory consists of three mesh routers \<open>X\<close>, \<open>Y\<close>, \<open>Z\<close> (distinct
  identifiers without commas, distinct shortnames, no upstreams) and there is no previous
  file. The run writes the neighbour table \<open>{X: {Y, Z}, Y: {X, Z}, Z: {X, Y}}\<close>, the ports
  55000, 55001 and 55002 for the pairs \<open>X,Y\<close>, \<open>X,Z\<close> and \<open>Y,Z\<close> under both key orderings,
  and \<open>next_port = 55003\<close>.
\<close>

theorem C9_three_mesh_routers:
  assumes "distinct [X, Y, Z]" and "comma_free X" and "comma_free Y" and "comma_free Z"
    and "distinct [shortname sx, shortname sy, shortname sz]"
    and "upstream_list sx = []" and "upstream_list sy = []" and "upstream_list sz = []"
    and "set mesh = {X, Y, Z}"
  shows "main None \<lparr>dn42routers = [(X, sx), (Y, sy), (Z, sz)], meshrouters = mesh\<rparr> =
     (None, Some \<lparr>next_port = 55003,
        igp_neighbours = [X \<mapsto> {Y, Z}, Y \<mapsto> {X, Z}, Z \<mapsto> {X, Y}],
        igp_wg_ports = [join_pair X Y \<mapsto> 55000, join_pair Y X \<mapsto> 55000,
                        join_pair X Z \<mapsto> 55001, join_pair Z X \<mapsto> 55001,
                        join_pair Y Z \<mapsto> 55002, join_pair Z Y \<mapsto> 55002]\<rparr>)"
proof -
  obtain seen where "neighbour_loop mesh (Map.empty, Map.empty) [(X, sx), (Y, sy), (Z, sz)]
           = Inr ([X \<mapsto> {Y, Z}, Y \<mapsto> {X, Z}, Z \<mapsto> {X, Y}], seen)"
    using neighbour_loop_three_mesh[OF assms(1,5,6,7,8,9)] by blast
  then show ?thesis
    using port_loop_three[OF assms(1-4)]
    by (simp add: main_def compute_def read_previous_settings_def)
qed

theorem C9_three_mesh_routers_witness:
  "main None \<lparr>dn42routers = [(''X'', \<lparr>shortname = ''x'', igp_upstreams = None\<rparr>),
                               (''Y'', \<lparr>shortname = ''y'', igp_upstreams = None\<rparr>),
                               (''Z'', \<lparr>shortname = ''z'', igp_upstreams = None\<rparr>)],
               meshrouters = [''X'', ''Y'', ''Z'']\<rparr> =
     (None, Some \<lparr>next_port = 55003,
        igp_neighbours = [''X'' \<mapsto> {''Y'', ''Z''}, ''Y'' \<mapsto> {''X'', ''Z''}, ''Z'' \<mapsto> {''X'', ''Y''}],
        igp_wg_ports = [''X,Y'' \<mapsto> 55000, ''Y,X'' \<mapsto> 55000,
                        ''X,Z'' \<mapsto> 55001, ''Z,X'' \<mapsto> 55001,
                        ''Y,Z'' \<mapsto> 55002, ''Z,Y'' \<mapsto> 55002]\<rparr>)"
  using C9_three_mesh_routers[of "''X''" "''Y''" "''Z''"
      "\<lparr>shortname = ''x'', igp_upstreams = None\<rparr>" "\<lparr>shortname = ''y'', igp_upstreams = None\<rparr>"
      "\<lparr>shortname = ''z'', igp_upstreams = None\<rparr>" "[''X'', ''Y'', ''Z'']"]
  by (simp add: comma_free_def upstream_list_def join_pair_def)

section \<open>The run as a whole\<close>

lemma ex_main: "main None ex_hosts = (None, Some ex_out)"
  by (simp add: main_def compute_def read_previous_settings_def ex_hosts_def ex_out_def neighbour_step_def
     upstream_list_def add_reverse_all_def add_reverse_def setdefault_get_def START_PORT_def
     port_loop_def port_step_def join_pair_def fun_eq_iff) auto

lemma main_error_iff:
  "fst (main outfile h) = Some e \<longleftrightarrow>
     neighbour_loop (meshrouters h) (Map.empty, Map.empty) (dn42routers h) = Inl e"
  by (auto simp: main_def compute_def split: sum.splits prod.splits)

lemma main_error_file: "fst (main outfile h) = Some e \<Longrightarrow> main outfile h = (Some e, outfile)"
  by (auto simp: main_def split: sum.splits)

lemma main_ok_neighbours:
  "main outfile h = (None, Some d) \<Longrightarrow>
     \<exists>seen. neighbour_loop (meshrouters h) (Map.empty, Map.empty) (dn42routers h) = Inr (igp_neighbours d, seen)"
  by (auto simp: main_def compute_def split: sum.splits prod.splits)

lemma main_ok_ports:
  "main outfile h = (None, Some d) \<Longrightarrow>
     port_loop (igp_wg_ports (read_previous_settings outfile), next_port (read_previous_settings outfile))
        (map fst (dn42routers h)) = (igp_wg_ports d, next_port d)"
  by (auto simp: main_def compute_def split: sum.splits prod.splits)

lemma main_ok_iff:
  "(\<exists>d. main outfile h = (None, Some d)) \<longleftrightarrow>
     (\<forall>e\<in>set (dn42routers h). \<not> violates_xor (meshrouters h) e)
     \<and> distinct (map (\<lambda>e. shortname (snd e)) (dn42routers h))"
proof -
  have "(\<exists>d. main outfile h = (None, Some d)) \<longleftrightarrow>
      (\<exists>st'. neighbour_loop (meshrouters h) (Map.empty, Map.empty) (dn42routers h) = Inr st')"
    by (auto simp: main_def compute_def split: sum.splits prod.splits)
  also have "\<dots> \<longleftrightarrow> (\<forall>e\<in>set (dn42routers h). \<not> violates_xor (meshrouters h) e)
     \<and> distinct (map (\<lambda>e. shortname (snd e)) (dn42routers h))
     \<and> (\<forall>e\<in>set (dn42routers h). Map.empty (shortname (snd e)) = (None :: string option))"
    by (rule neighbour_loop_ok_iff)
  finally show ?thesis by simp
qed

lemma neighbours_after_run:
  assumes "main outfile h = (None, Some d)"
  shows "B \<in> setdefault_get (igp_neighbours d) A \<longleftrightarrow>
        (A \<noteq> B \<and> A \<in> fst ` set (dn42routers h) \<and> A \<in> set (meshrouters h) \<and> B \<in> set (meshrouters h))
        \<or> B \<in> upstreams_of (dn42routers h) A \<or> A \<in> upstreams_of (dn42routers h) B"
proof -
  obtain seen where "neighbour_loop (meshrouters h) (Map.empty, Map.empty) (dn42routers h)
      = Inr (igp_neighbours d, seen)"
    using main_ok_neighbours[OF assms] by blast
  then have "adj_inv (meshrouters h) ([] @ dn42routers h) (igp_neighbours d)"
    by (intro neighbour_loop_adj_inv[OF adj_inv_empty]) simp_all
  then show ?thesis by (simp add: adj_inv_def)
qed

lemma neighbours_entry:
  assumes "main outfile h = (None, Some d)" and "A \<in> fst ` set (dn42routers h)"
  shows "igp_neighbours d A \<noteq> None"
proof -
  obtain seen where "neighbour_loop (meshrouters h) (Map.empty, Map.empty) (dn42routers h)
      = Inr (igp_neighbours d, seen)"
    using main_ok_neighbours[OF assms(1)] by blast
  then show ?thesis using assms(2) by (rule neighbour_loop_dom)
qed

lemma setdefault_get_Some: "nb A = Some S \<Longrightarrow> setdefault_get nb A = S"
  by (simp add: setdefault_get_def)

lemma setdefault_get_member: "B \<in> setdefault_get nb A \<Longrightarrow> \<exists>S. nb A = Some S \<and> B \<in> S"
  by (cases "nb A") (simp_all add: setdefault_get_def)

text \<open>
  Claim C2. After a run that passes validation, every router \<open>A\<close> of the inventory has an
  entry in the neighbour table, and \<open>B\<close> is in it if and only if \<open>A\<close> and \<open>B\<close> are two
  different mesh members, or \<open>B\<close> is an upstream of \<open>A\<close>, or \<open>A\<close> is an upstream of \<open>B\<close>.
  So mesh members are mutually adjacent, none is its own neighbour through the mesh, and an
  upstream declaration gives an edge in both directions.
\<close>

theorem C2_adjacency_characterised:
  assumes "main outfile h = (None, Some d)" and "A \<in> fst ` set (dn42routers h)"
  shows "\<exists>S. igp_neighbours d A = Some S \<and>
           (\<forall>B. B \<in> S \<longleftrightarrow>
              (A \<noteq> B \<and> A \<in> set (meshrouters h) \<and> B \<in> set (meshrouters h))
              \<or> B \<in> upstreams_of (dn42routers h) A \<or> A \<in> upstreams_of (dn42routers h) B)"
proof -
  obtain S where S: "igp_neighbours d A = Some S"
    using neighbours_entry[OF assms] by blast
  then have "setdefault_get (igp_neighbours d) A = S" by (rule setdefault_get_Some)
  then have "\<forall>B. B \<in> S \<longleftrightarrow>
              (A \<noteq> B \<and> A \<in> set (meshrouters h) \<and> B \<in> set (meshrouters h))
              \<or> B \<in> upstreams_of (dn42routers h) A \<or> A \<in> upstreams_of (dn42routers h) B"
    using neighbours_after_run[OF assms(1), of _ A] assms(2) by blast
  with S show ?thesis by blast
qed

theorem C2_adjacency_characterised_witness:
  "\<exists>S. igp_neighbours ex_out ''x'' = Some S \<and> ''y'' \<in> S \<and> ''w'' \<in> S \<and> ''x'' \<notin> S \<and> ''v'' \<notin> S"
proof -
  have A: "''x'' \<in> fst ` set (dn42routers ex_hosts)" by (simp add: ex_hosts_def)
  obtain S where S: "igp_neighbours ex_out ''x'' = Some S"
    and iff: "\<And>B. B \<in> S \<longleftrightarrow>
              (''x'' \<noteq> B \<and> ''x'' \<in> set (meshrouters ex_hosts) \<and> B \<in> set (meshrouters ex_hosts))
              \<or> B \<in> upstreams_of (dn42routers ex_hosts) ''x'' \<or> ''x'' \<in> upstreams_of (dn42routers ex_hosts) B"
    using C2_adjacency_characterised[OF ex_main A] by blast
  have "''y'' \<in> S" "''w'' \<in> S" "''x'' \<notin> S" "''v'' \<notin> S"
    unfolding iff by (simp_all add: ex_hosts_def upstreams_of_def upstream_list_def)
  with S show ?thesis by blast
qed

theorem C3_second_run_identical_witness:
  "main None ex_hosts = (None, Some ex_out) \<and> main (Some ex_out) ex_hosts = (None, Some ex_out)"
  using C3_second_run_identical[OF ex_main] ex_main by simp

lemma main_cases:
  "(\<exists>d. main outfile h = (None, Some d)) \<or> (\<exists>e. main outfile h = (Some e, outfile))"
  by (auto simp: main_def split: sum.splits)

lemma first_violation:
  "\<exists>r\<in>set rs. violates_xor mesh r \<Longrightarrow>
     \<exists>pre r post. rs = pre @ r # post \<and> violates_xor mesh r \<and> (\<forall>x\<in>set pre. \<not> violates_xor mesh x)"
  by (rule split_list_first_prop)

lemma main_constraint_iff:
  "fst (main outfile h) = Some (ConstraintViolation s) \<longleftrightarrow>
     (\<exists>pre r post. dn42routers h = pre @ r # post \<and> fst r = s
        \<and> violates_xor (meshrouters h) r
        \<and> (\<forall>x\<in>set pre. \<not> violates_xor (meshrouters h) x)
        \<and> distinct (map (\<lambda>e. shortname (snd e)) (pre @ [r])))"
  unfolding main_error_iff neighbour_loop_constraint_iff by simp

text \<open>
  Claim C7. The shortnames of the inventory are pairwise distinct. Then the run fails with
  the structural-constraint error if and only if some router violates the constraint (mesh
  member with upstreams, or neither); it succeeds if and only if no router does; and the
  error names the first router of the inventory that violates it.
\<close>

theorem C7_constraint_error_iff_violation:
  assumes "distinct (map (\<lambda>e. shortname (snd e)) (dn42routers h))"
  shows "((\<exists>s. fst (main outfile h) = Some (ConstraintViolation s))
            \<longleftrightarrow> (\<exists>r\<in>set (dn42routers h). violates_xor (meshrouters h) r))
     \<and> ((\<exists>d. main outfile h = (None, Some d))
            \<longleftrightarrow> (\<forall>r\<in>set (dn42routers h). \<not> violates_xor (meshrouters h) r))
     \<and> (\<forall>s. fst (main outfile h) = Some (ConstraintViolation s) \<longleftrightarrow>
            (\<exists>pre r post. dn42routers h = pre @ r # post \<and> fst r = s
               \<and> violates_xor (meshrouters h) r
               \<and> (\<forall>x\<in>set pre. \<not> violates_xor (meshrouters h) x)))"
proof -
  have d: "\<And>pre r post. dn42routers h = pre @ r # post
             \<Longrightarrow> distinct (map (\<lambda>e. shortname (snd e)) (pre @ [r]))"
    using assms by auto
  have 3: "\<forall>s. fst (main outfile h) = Some (ConstraintViolation s) \<longleftrightarrow>
            (\<exists>pre r post. dn42routers h = pre @ r # post \<and> fst r = s
               \<and> violates_xor (meshrouters h) r
               \<and> (\<forall>x\<in>set pre. \<not> violates_xor (meshrouters h) x))"
    unfolding main_constraint_iff using d by blast
  have 1: "(\<exists>s. fst (main outfile h) = Some (ConstraintViolation s))
            \<longleftrightarrow> (\<exists>r\<in>set (dn42routers h). violates_xor (meshrouters h) r)"
  proof
    assume "\<exists>s. fst (main outfile h) = Some (ConstraintViolation s)"
    then obtain pre r post where "dn42routers h = pre @ r # post" "violates_xor (meshrouters h) r"
      using 3 by blast
    then show "\<exists>r\<in>set (dn42routers h). violates_xor (meshrouters h) r" by auto
  next
    assume "\<exists>r\<in>set (dn42routers h). violates_xor (meshrouters h) r"
    then obtain pre r post where "dn42routers h = pre @ r # post" "violates_xor (meshrouters h) r"
      "\<forall>x\<in>set pre. \<not> violates_xor (meshrouters h) x"
      using first_violation by blast
    then have "fst (main outfile h) = Some (ConstraintViolation (fst r))" using 3 by blast
    then show "\<exists>s. fst (main outfile h) = Some (ConstraintViolation s)" ..
  qed
  have 2: "(\<exists>d. main outfile h = (None, Some d))
            \<longleftrightarrow> (\<forall>r\<in>set (dn42routers h). \<not> violates_xor (meshrouters h) r)"
    using assms by (simp add: main_ok_iff)
  from 1 2 3 show ?thesis by blast
qed

theorem C7_constraint_error_iff_violation_witness:
  "fst (main None \<lparr>dn42routers = [(''r1'', \<lparr>shortname = ''a'', igp_upstreams = None\<rparr>),
                                     (''r2'', \<lparr>shortname = ''b'', igp_upstreams = None\<rparr>)],
                     meshrouters = [''r1'']\<rparr>) = Some (ConstraintViolation ''r2'')"
proof -
  let ?r1 = "(''r1'', \<lparr>shortname = ''a'', igp_upstreams = None\<rparr>)"
  let ?r2 = "(''r2'', \<lparr>shortname = ''b'', igp_upstreams = None\<rparr>)"
  let ?h = "\<lparr>dn42routers = [?r1, ?r2], meshrouters = [''r1'']\<rparr>"
  have d: "distinct (map (\<lambda>e. shortname (snd e)) (dn42routers ?h))" by simp
  have "dn42routers ?h = [?r1] @ ?r2 # [] \<and> fst ?r2 = ''r2''
        \<and> violates_xor (meshrouters ?h) ?r2
        \<and> (\<forall>x\<in>set [?r1]. \<not> violates_xor (meshrouters ?h) x)"
    by (simp add: violates_xor_def upstream_list_def)
  then have "\<exists>pre r post. dn42routers ?h = pre @ r # post \<and> fst r = ''r2''
        \<and> violates_xor (meshrouters ?h) r
        \<and> (\<forall>x\<in>set pre. \<not> violates_xor (meshrouters ?h) x)"
    by blast
  with C7_constraint_error_iff_violation[OF d, of None] show ?thesis by blast
qed

lemma neighbour_loop_append:
  "neighbour_loop mesh st (xs @ ys) =
     (case neighbour_loop mesh st xs of Inl e \<Rightarrow> Inl e | Inr st' \<Rightarrow> neighbour_loop mesh st' ys)"
  by (induction xs arbitrary: st) (auto split: sum.splits)

lemma neighbour_loop_seen:
  assumes "neighbour_loop mesh (nb, seen) rs = Inr (nb', seen')"
  shows "(\<forall>e\<in>set rs. seen' (shortname (snd e)) = Some (fst e))
       \<and> (\<forall>k. k \<notin> (\<lambda>e. shortname (snd e)) ` set rs \<longrightarrow> seen' k = seen k)"
  using assms
proof (induction rs arbitrary: nb seen)
  case Nil
  then show ?case by simp
next
  case (Cons e rs)
  obtain server sd where e: "e = (server, sd)" by (cases e)
  from Cons.prems obtain nb1 seen1 where
    step: "neighbour_step mesh (nb, seen) (server, sd) = Inr (nb1, seen1)"
    and rest: "neighbour_loop mesh (nb1, seen1) rs = Inr (nb', seen')"
    by (auto simp: e split: sum.splits)
  have s1: "seen1 = seen(shortname sd \<mapsto> server)" using step by (simp add: neighbour_step_Inr)
  have "\<exists>st'. neighbour_loop mesh (nb1, seen1) rs = Inr st'" using rest by blast
  then have fresh: "\<forall>x\<in>set rs. seen1 (shortname (snd x)) = None"
    unfolding neighbour_loop_ok_iff by blast
  then have notin: "shortname sd \<notin> (\<lambda>e. shortname (snd e)) ` set rs"
    unfolding s1 by force
  from Cons.IH[OF rest] have ih1: "\<forall>x\<in>set rs. seen' (shortname (snd x)) = Some (fst x)"
    and ih2: "\<forall>k. k \<notin> (\<lambda>e. shortname (snd e)) ` set rs \<longrightarrow> seen' k = seen1 k" by simp_all
  have "seen' (shortname sd) = Some server" using ih2 notin s1 by simp
  moreover have "\<forall>k. k \<notin> (\<lambda>e. shortname (snd e)) ` set (e # rs) \<longrightarrow> seen' k = seen k"
    using ih2 s1 e by simp
  ultimately show ?case using ih1 e by simp
qed

lemma main_duplicate:
  assumes rs: "dn42routers h = pre @ (server, sd) # post"
    and d: "distinct (map (\<lambda>e. shortname (snd e)) pre)"
    and ok: "\<forall>x\<in>set pre. \<not> violates_xor (meshrouters h) x"
    and f: "(first, sd') \<in> set pre" "shortname sd' = shortname sd"
  shows "main outfile h = (Some (DuplicateShortname (shortname sd) first server), outfile)"
proof -
  have "\<exists>st'. neighbour_loop (meshrouters h) (Map.empty, Map.empty) pre = Inr st'"
    unfolding neighbour_loop_ok_iff using d ok by simp
  then obtain nb' seen' where p: "neighbour_loop (meshrouters h) (Map.empty, Map.empty) pre = Inr (nb', seen')"
    by force
  have "seen' (shortname (snd (first, sd'))) = Some (fst (first, sd'))"
    using neighbour_loop_seen[OF p] f(1) by blast
  then have "seen' (shortname sd) = Some first" using f(2) by simp
  then have "neighbour_step (meshrouters h) (nb', seen') (server, sd)
      = Inl (DuplicateShortname (shortname sd) first server)"
    by (simp add: neighbour_step_Inl)
  then have "neighbour_loop (meshrouters h) (Map.empty, Map.empty) (dn42routers h)
      = Inl (DuplicateShortname (shortname sd) first server)"
    unfolding rs neighbour_loop_append p by simp
  then have "fst (main outfile h) = Some (DuplicateShortname (shortname sd) first server)"
    by (simp add: main_error_iff)
  then show ?thesis by (rule main_error_file)
qed

lemma main_constraint:
  assumes "dn42routers h = pre @ r # post" and "violates_xor (meshrouters h) r"
    and "\<forall>x\<in>set pre. \<not> violates_xor (meshrouters h) x"
    and "distinct (map (\<lambda>e. shortname (snd e)) (pre @ [r]))"
  shows "main outfile h = (Some (ConstraintViolation (fst r)), outfile)"
proof -
  have "fst (main outfile h) = Some (ConstraintViolation (fst r))"
    unfolding main_constraint_iff using assms by blast
  then show ?thesis by (rule main_error_file)
qed

lemma first_repeat:
  assumes "\<not> distinct (map f rs)"
  shows "\<exists>pre r post. rs = pre @ r # post \<and> distinct (map f pre) \<and> f r \<in> f ` set pre"
proof -
  from assms obtain xs y ys where y: "y \<in> set xs" and dx: "distinct xs" and m: "map f rs = xs @ y # ys"
    unfolding not_distinct_conv_prefix by blast
  from m obtain pre rest where rs: "rs = pre @ rest" and p: "map f pre = xs" and r: "map f rest = y # ys"
    by (auto simp: map_eq_append_conv)
  from r obtain r0 post where rest: "rest = r0 # post" and fr: "f r0 = y"
    by (auto simp: map_eq_Cons_conv)
  have "rs = pre @ r0 # post" using rs rest by simp
  moreover have "distinct (map f pre)" using p dx by simp
  moreover have "f r0 \<in> f ` set pre" using y p fr by (metis list.set_map)
  ultimately show ?thesis by blast
qed

text \<open>
  Claim C8, as the code has it. When two routers share a shortname, let \<open>r\<close> be the first
  router that repeats the shortname of a router before it. If no router before \<open>r\<close>
  violates the structural constraint, the run fails with the duplicate-shortname error for
  \<open>r\<close> and the earlier holder of the shortname; otherwise it fails with the
  structural-constraint error of the first router that violates it. On every inventory that
  fails a check the run ends with an error and the file is as it was: same content, so same
  port table and same \<open>next_port\<close>.
\<close>

theorem C8_duplicate_shortname_run:
  "(\<not> distinct (map (\<lambda>e. shortname (snd e)) (dn42routers h)) \<longrightarrow>
      (\<exists>pre r post. dn42routers h = pre @ r # post
         \<and> distinct (map (\<lambda>e. shortname (snd e)) pre)
         \<and> shortname (snd r) \<in> (\<lambda>e. shortname (snd e)) ` set pre
         \<and> (if \<forall>x\<in>set pre. \<not> violates_xor (meshrouters h) x
            then \<exists>first sd'. (first, sd') \<in> set pre \<and> shortname sd' = shortname (snd r)
                   \<and> main outfile h = (Some (DuplicateShortname (shortname (snd r)) first (fst r)), outfile)
            else \<exists>pre1 v post1. pre = pre1 @ v # post1 \<and> violates_xor (meshrouters h) v
                   \<and> (\<forall>x\<in>set pre1. \<not> violates_xor (meshrouters h) x)
                   \<and> main outfile h = (Some (ConstraintViolation (fst v)), outfile))))
   \<and> ((\<exists>r\<in>set (dn42routers h). violates_xor (meshrouters h) r)
        \<or> \<not> distinct (map (\<lambda>e. shortname (snd e)) (dn42routers h))
       \<longrightarrow> (\<exists>e. main outfile h = (Some e, outfile))
           \<and> map_option igp_wg_ports (snd (main outfile h)) = map_option igp_wg_ports outfile
           \<and> map_option next_port (snd (main outfile h)) = map_option next_port outfile)"
proof (rule conjI; rule impI)
  assume nd: "\<not> distinct (map (\<lambda>e. shortname (snd e)) (dn42routers h))"
  then obtain pre r post where rs: "dn42routers h = pre @ r # post"
    and d: "distinct (map (\<lambda>e. shortname (snd e)) pre)"
    and rep: "shortname (snd r) \<in> (\<lambda>e. shortname (snd e)) ` set pre"
    using first_repeat[of "\<lambda>e. shortname (snd e)" "dn42routers h"] by blast
  have "if \<forall>x\<in>set pre. \<not> violates_xor (meshrouters h) x
            then \<exists>first sd'. (first, sd') \<in> set pre \<and> shortname sd' = shortname (snd r)
                   \<and> main outfile h = (Some (DuplicateShortname (shortname (snd r)) first (fst r)), outfile)
            else \<exists>pre1 v post1. pre = pre1 @ v # post1 \<and> violates_xor (meshrouters h) v
                   \<and> (\<forall>x\<in>set pre1. \<not> violates_xor (meshrouters h) x)
                   \<and> main outfile h = (Some (ConstraintViolation (fst v)), outfile)"
  proof (cases "\<forall>x\<in>set pre. \<not> violates_xor (meshrouters h) x")
    case True
    from rep obtain first sd' where f: "(first, sd') \<in> set pre" "shortname sd' = shortname (snd r)"
      by force
    have rs': "dn42routers h = pre @ (fst r, snd r) # post" using rs by simp
    have "main outfile h = (Some (DuplicateShortname (shortname (snd r)) first (fst r)), outfile)"
      using rs' d True f by (rule main_duplicate)
    then have t: "\<exists>first sd'. (first, sd') \<in> set pre \<and> shortname sd' = shortname (snd r)
                   \<and> main outfile h = (Some (DuplicateShortname (shortname (snd r)) first (fst r)), outfile)"
      using f by blast
    show ?thesis by (subst if_P, rule True, rule t)
  next
    case False
    then obtain pre1 v post1 where v: "pre = pre1 @ v # post1" "violates_xor (meshrouters h) v"
      "\<forall>x\<in>set pre1. \<not> violates_xor (meshrouters h) x"
      using first_violation[of pre "meshrouters h"] by blast
    have "dn42routers h = pre1 @ v # (post1 @ r # post)" using rs v(1) by simp
    moreover have "distinct (map (\<lambda>e. shortname (snd e)) (pre1 @ [v]))" using d v(1) by simp
    ultimately have "main outfile h = (Some (ConstraintViolation (fst v)), outfile)"
      using v(2,3) main_constraint by blast
    then have t: "\<exists>pre1 v post1. pre = pre1 @ v # post1 \<and> violates_xor (meshrouters h) v
                   \<and> (\<forall>x\<in>set pre1. \<not> violates_xor (meshrouters h) x)
                   \<and> main outfile h = (Some (ConstraintViolation (fst v)), outfile)"
      using v by blast
    show ?thesis by (subst if_not_P, rule False, rule t)
  qed
  with rs d rep show "\<exists>pre r post. dn42routers h = pre @ r # post
         \<and> distinct (map (\<lambda>e. shortname (snd e)) pre)
         \<and> shortname (snd r) \<in> (\<lambda>e. shortname (snd e)) ` set pre
         \<and> (if \<forall>x\<in>set pre. \<not> violates_xor (meshrouters h) x
            then \<exists>first sd'. (first, sd') \<in> set pre \<and> shortname sd' = shortname (snd r)
                   \<and> main outfile h = (Some (DuplicateShortname (shortname (snd r)) first (fst r)), outfile)
            else \<exists>pre1 v post1. pre = pre1 @ v # post1 \<and> violates_xor (meshrouters h) v
                   \<and> (\<forall>x\<in>set pre1. \<not> violates_xor (meshrouters h) x)
                   \<and> main outfile h = (Some (ConstraintViolation (fst v)), outfile))"
    by blast
next
  assume "(\<exists>r\<in>set (dn42routers h). violates_xor (meshrouters h) r)
        \<or> \<not> distinct (map (\<lambda>e. shortname (snd e)) (dn42routers h))"
  then have "\<not> (\<exists>d. main outfile h = (None, Some d))" unfolding main_ok_iff by blast
  then obtain e where e: "main outfile h = (Some e, outfile)" using main_cases[of outfile h] by blast
  then show "(\<exists>e. main outfile h = (Some e, outfile))
           \<and> map_option igp_wg_ports (snd (main outfile h)) = map_option igp_wg_ports outfile
           \<and> map_option next_port (snd (main outfile h)) = map_option next_port outfile"
    by simp
qed

theorem C8_duplicate_shortname_run_witness:
  "main (Some ex_out) \<lparr>dn42routers = [(''r1'', \<lparr>shortname = ''a'', igp_upstreams = None\<rparr>),
                                        (''r2'', \<lparr>shortname = ''a'', igp_upstreams = None\<rparr>),
                                        (''r3'', \<lparr>shortname = ''c'', igp_upstreams = None\<rparr>)],
                        meshrouters = [''r1'', ''r2'']\<rparr>
     = (Some (DuplicateShortname ''a'' ''r1'' ''r2''), Some ex_out)"
proof -
  let ?r1 = "(''r1'', \<lparr>shortname = ''a'', igp_upstreams = None\<rparr>)"
  let ?r2 = "(''r2'', \<lparr>shortname = ''a'', igp_upstreams = None\<rparr>)"
  let ?r3 = "(''r3'', \<lparr>shortname = ''c'', igp_upstreams = None\<rparr>)"
  let ?h = "\<lparr>dn42routers = [?r1, ?r2, ?r3], meshrouters = [''r1'', ''r2'']\<rparr>"
  have nd: "\<not> distinct (map (\<lambda>e. shortname (snd e)) (dn42routers ?h))" by simp
  from C8_duplicate_shortname_run[of ?h "Some ex_out"] nd
  obtain pre r post where rs: "dn42routers ?h = pre @ r # post"
    and d: "distinct (map (\<lambda>e. shortname (snd e)) pre)"
    and rep: "shortname (snd r) \<in> (\<lambda>e. shortname (snd e)) ` set pre"
    and c: "if \<forall>x\<in>set pre. \<not> violates_xor (meshrouters ?h) x
            then \<exists>first sd'. (first, sd') \<in> set pre \<and> shortname sd' = shortname (snd r)
                   \<and> main (Some ex_out) ?h = (Some (DuplicateShortname (shortname (snd r)) first (fst r)), Some ex_out)
            else \<exists>pre1 v post1. pre = pre1 @ v # post1 \<and> violates_xor (meshrouters ?h) v
                   \<and> (\<forall>x\<in>set pre1. \<not> violates_xor (meshrouters ?h) x)
                   \<and> main (Some ex_out) ?h = (Some (ConstraintViolation (fst v)), Some ex_out)"
    by blast
  have p: "pre = [?r1] \<and> r = ?r2"
    using rs d rep by (auto simp: Cons_eq_append_conv)
  have ok: "\<forall>x\<in>set pre. \<not> violates_xor (meshrouters ?h) x"
    using p by (simp add: violates_xor_def upstream_list_def)
  from c ok have "\<exists>first sd'. (first, sd') \<in> set pre \<and> shortname sd' = shortname (snd r)
                   \<and> main (Some ex_out) ?h = (Some (DuplicateShortname (shortname (snd r)) first (fst r)), Some ex_out)"
    by (simp only: if_True)
  then show ?thesis using p by auto
qed

text \<open>
  Claim C8 as written fails: \<open>r2\<close> and \<open>r3\<close> share a shortname, and the run fails with the
  structural-constraint error of \<open>r1\<close>, because both checks are made router by router in
  the one loop.
\<close>

theorem C8_counterexample:
  "\<not> distinct (map (\<lambda>e. shortname (snd e))
        [(''r1'', \<lparr>shortname = ''a'', igp_upstreams = None\<rparr>),
         (''r2'', \<lparr>shortname = ''b'', igp_upstreams = None\<rparr>),
         (''r3'', \<lparr>shortname = ''b'', igp_upstreams = None\<rparr>)])
   \<and> fst (main None \<lparr>dn42routers = [(''r1'', \<lparr>shortname = ''a'', igp_upstreams = None\<rparr>),
                                       (''r2'', \<lparr>shortname = ''b'', igp_upstreams = None\<rparr>),
                                       (''r3'', \<lparr>shortname = ''b'', igp_upstreams = None\<rparr>)],
                       meshrouters = [''r2'', ''r3'']\<rparr>) = Some (ConstraintViolation ''r1'')"
  by (simp add: upstream_list_def main_def compute_def neighbour_step_def
        add_reverse_all_def setdefault_get_def)

lemma port_loop_changed_key:
  assumes "port_loop (ports, np) ids = (ports', np')" and "ports' k \<noteq> ports k"
  shows "\<exists>(a, b)\<in>set (combinations2 ids). k = join_pair a b \<or> k = join_pair b a"
proof (rule ccontr)
  assume "\<not> (\<exists>(a, b)\<in>set (combinations2 ids). k = join_pair a b \<or> k = join_pair b a)"
  then have "\<forall>p\<in>set (combinations2 ids). k \<notin> pair_keys p"
    by (auto simp: pair_keys_def)
  then have "fst (foldl port_step (ports, np) (combinations2 ids)) k = ports k"
    by (rule foldl_port_step_other)
  then show False using assms by (simp add: port_loop_def)
qed

lemma foreign_keys_untouched:
  assumes run: "port_loop (ports, np) ids = (ports', np')"
    and u: "u \<notin> set ids" "comma_free u" and cf: "\<forall>i\<in>set ids. comma_free i" and B: "comma_free B"
  shows "ports' (join_pair u B) = ports (join_pair u B) \<and> ports' (join_pair B u) = ports (join_pair B u)"
proof -
  have "\<not> (\<exists>(a, b)\<in>set (combinations2 ids). join_pair u B = join_pair a b \<or> join_pair u B = join_pair b a)"
  proof
    assume "\<exists>(a, b)\<in>set (combinations2 ids). join_pair u B = join_pair a b \<or> join_pair u B = join_pair b a"
    then obtain a b where ab: "(a, b) \<in> set (combinations2 ids)"
      and e: "join_pair u B = join_pair a b \<or> join_pair u B = join_pair b a" by blast
    have m: "a \<in> set ids" "b \<in> set ids" using combinations2_set[OF ab] by simp_all
    then have "comma_free a" "comma_free b" using cf by simp_all
    then have "u = a \<or> u = b" using e join_pair_inj[OF u(2)] by blast
    then show False using m u(1) by blast
  qed
  moreover have "\<not> (\<exists>(a, b)\<in>set (combinations2 ids). join_pair B u = join_pair a b \<or> join_pair B u = join_pair b a)"
  proof
    assume "\<exists>(a, b)\<in>set (combinations2 ids). join_pair B u = join_pair a b \<or> join_pair B u = join_pair b a"
    then obtain a b where ab: "(a, b) \<in> set (combinations2 ids)"
      and e: "join_pair B u = join_pair a b \<or> join_pair B u = join_pair b a" by blast
    have m: "a \<in> set ids" "b \<in> set ids" using combinations2_set[OF ab] by simp_all
    then have "comma_free a" "comma_free b" using cf by simp_all
    then have "u = b \<or> u = a" using e join_pair_inj[OF B] by blast
    then show False using m u(1) by blast
  qed
  ultimately show ?thesis using port_loop_changed_key[OF run] by blast
qed

text \<open>
  Claim C10. The inventory passes both checks, router \<open>A\<close> declares an upstream \<open>u\<close> that is
  not a router of the inventory. Then the run succeeds, \<open>u\<close> is a neighbour of \<open>A\<close>, the
  table has an entry for \<open>u\<close> that contains \<open>A\<close>, no enumerated pair involves \<open>u\<close>, every
  port-table key whose value differs from the previous table is a key of an enumerated
  pair, and (identifiers without commas) the keys of every pair that involves \<open>u\<close> are as
  in the previous table.
\<close>

theorem C10_unknown_upstream:
  assumes "\<forall>e\<in>set (dn42routers h). \<not> violates_xor (meshrouters h) e"
    and "distinct (map (\<lambda>e. shortname (snd e)) (dn42routers h))"
    and "(A, sd) \<in> set (dn42routers h)" and "u \<in> set (upstream_list sd)"
    and "u \<notin> fst ` set (dn42routers h)"
  shows "\<exists>d. main outfile h = (None, Some d)
     \<and> (\<exists>S. igp_neighbours d A = Some S \<and> u \<in> S)
     \<and> (\<exists>S. igp_neighbours d u = Some S \<and> A \<in> S)
     \<and> (\<forall>(a, b)\<in>set (combinations2 (map fst (dn42routers h))). a \<noteq> u \<and> b \<noteq> u)
     \<and> (\<forall>k. igp_wg_ports d k \<noteq> igp_wg_ports (read_previous_settings outfile) k \<longrightarrow>
            (\<exists>(a, b)\<in>set (combinations2 (map fst (dn42routers h))). k = join_pair a b \<or> k = join_pair b a))
     \<and> (comma_free u \<and> (\<forall>i\<in>fst ` set (dn42routers h). comma_free i) \<longrightarrow>
          (\<forall>B. comma_free B \<longrightarrow>
             igp_wg_ports d (join_pair u B) = igp_wg_ports (read_previous_settings outfile) (join_pair u B)
             \<and> igp_wg_ports d (join_pair B u) = igp_wg_ports (read_previous_settings outfile) (join_pair B u)))"
proof -
  obtain d where d: "main outfile h = (None, Some d)"
    using main_ok_iff[of outfile h] assms(1,2) by blast
  note run = main_ok_ports[OF d]
  have up: "u \<in> upstreams_of (dn42routers h) A"
    using assms(3,4) by (auto simp: upstreams_of_iff)
  have "u \<in> setdefault_get (igp_neighbours d) A"
    using neighbours_after_run[OF d, of u A] up by simp
  then have 1: "\<exists>S. igp_neighbours d A = Some S \<and> u \<in> S" by (rule setdefault_get_member)
  have "A \<in> setdefault_get (igp_neighbours d) u"
    using neighbours_after_run[OF d, of A u] up by simp
  then have 2: "\<exists>S. igp_neighbours d u = Some S \<and> A \<in> S" by (rule setdefault_get_member)
  have 3: "\<forall>(a, b)\<in>set (combinations2 (map fst (dn42routers h))). a \<noteq> u \<and> b \<noteq> u"
    using assms(5) combinations2_set[of _ _ "map fst (dn42routers h)"] by fastforce
  have 4: "\<forall>k. igp_wg_ports d k \<noteq> igp_wg_ports (read_previous_settings outfile) k \<longrightarrow>
            (\<exists>(a, b)\<in>set (combinations2 (map fst (dn42routers h))). k = join_pair a b \<or> k = join_pair b a)"
    using port_loop_changed_key[OF run] by blast
  have 5: "comma_free u \<and> (\<forall>i\<in>fst ` set (dn42routers h). comma_free i) \<longrightarrow>
          (\<forall>B. comma_free B \<longrightarrow>
             igp_wg_ports d (join_pair u B) = igp_wg_ports (read_previous_settings outfile) (join_pair u B)
             \<and> igp_wg_ports d (join_pair B u) = igp_wg_ports (read_previous_settings outfile) (join_pair B u))"
    using foreign_keys_untouched[OF run, of u] assms(5) by simp
  from d 1 2 3 4 5 show ?thesis by blast
qed

theorem C10_unknown_upstream_witness:
  "main None ex_hosts = (None, Some ex_out)
   \<and> (\<exists>S. igp_neighbours ex_out ''w'' = Some S \<and> ''v'' \<in> S)
   \<and> (\<exists>S. igp_neighbours ex_out ''v'' = Some S \<and> ''w'' \<in> S)
   \<and> igp_wg_ports ex_out ''v,x'' = None \<and> igp_wg_ports ex_out ''x,v'' = None"
proof -
  have ok: "\<forall>e\<in>set (dn42routers ex_hosts). \<not> violates_xor (meshrouters ex_hosts) e"
    by (simp add: ex_hosts_def violates_xor_def upstream_list_def)
  have sn: "distinct (map (\<lambda>e. shortname (snd e)) (dn42routers ex_hosts))"
    by (simp add: ex_hosts_def)
  have A: "(''w'', \<lparr>shortname = ''sw'', igp_upstreams = Some [''x'', ''v'']\<rparr>) \<in> set (dn42routers ex_hosts)"
    by (simp add: ex_hosts_def)
  have u: "''v'' \<in> set (upstream_list \<lparr>shortname = ''sw'', igp_upstreams = Some [''x'', ''v'']\<rparr>)"
    by (simp add: upstream_list_def)
  have nin: "''v'' \<notin> fst ` set (dn42routers ex_hosts)"
    by (simp add: ex_hosts_def)
  have cf: "comma_free ''v'' \<and> (\<forall>i\<in>fst ` set (dn42routers ex_hosts). comma_free i)"
    by (simp add: ex_hosts_def comma_free_def)
  have cx: "comma_free ''x''" by (simp add: comma_free_def)
  obtain d where d: "main None ex_hosts = (None, Some d)"
    and 1: "\<exists>S. igp_neighbours d ''w'' = Some S \<and> ''v'' \<in> S"
    and 2: "\<exists>S. igp_neighbours d ''v'' = Some S \<and> ''w'' \<in> S"
    and 5: "comma_free ''v'' \<and> (\<forall>i\<in>fst ` set (dn42routers ex_hosts). comma_free i) \<longrightarrow>
          (\<forall>B. comma_free B \<longrightarrow>
             igp_wg_ports d (join_pair ''v'' B) = igp_wg_ports (read_previous_settings None) (join_pair ''v'' B)
             \<and> igp_wg_ports d (join_pair B ''v'') = igp_wg_ports (read_previous_settings None) (join_pair B ''v''))"
    using C10_unknown_upstream[OF ok sn A u nin, of None] by blast
  have de: "d = ex_out" using d ex_main by simp
  have "igp_wg_ports d (join_pair ''v'' ''x'') = igp_wg_ports (read_previous_settings None) (join_pair ''v'' ''x'')
      \<and> igp_wg_ports d (join_pair ''x'' ''v'') = igp_wg_ports (read_previous_settings None) (join_pair ''x'' ''v'')"
    using 5 cf cx by blast
  then have "igp_wg_ports d ''v,x'' = None \<and> igp_wg_ports d ''x,v'' = None"
    by (simp add: join_pair_def read_previous_settings_def)
  with d 1 2 de show ?thesis by simp
qed

end
